theory Spec2Isabelle
  imports Main "HOL-Library.Word"
begin

unbundle bit_operations_syntax

section \<open>Helium: SMARTS predicate evaluation, fragment combination, fingerprint indexes\<close>

text \<open>
  A shallow embedding of \<^verbatim>\<open>src/algorithms/smarts.h\<close> and
  \<^verbatim>\<open>src/fileio/fingerprints.h\<close>. Exceptions and failed assertions of the C++ code are
  values of type \<open>error\<close> (assertions are taken as enabled); an access outside an
  allocated array, which is undefined behaviour in C++, is the error \<open>out_of_bounds\<close>.
\<close>

datatype error =
    runtime_error string   \<comment> \<open>\<^verbatim>\<open>throw std::runtime_error(msg)\<close>\<close>
  | assertion_failed       \<comment> \<open>a failed \<^verbatim>\<open>assert\<close> aborts the evaluation\<close>
  | out_of_bounds          \<comment> \<open>an array or vector is indexed outside its allocation\<close>

text \<open>Indexing and assignment of \<^verbatim>\<open>std::vector\<close> and of heap arrays.\<close>

definition vec_get :: "'a list \<Rightarrow> nat \<Rightarrow> error + 'a" where
  "vec_get xs i = (if i < length xs then Inr (xs ! i) else Inl out_of_bounds)"

definition vec_set :: "'a list \<Rightarrow> nat \<Rightarrow> 'a \<Rightarrow> error + 'a list" where
  "vec_set xs i v = (if i < length xs then Inr (xs[i := v]) else Inl out_of_bounds)"

subsection \<open>Expression model (smarts.h, SmartsAtomExpr and SmartsBondExpr)\<close>

text \<open>
  The C++ node is a type tag, a union of \<^verbatim>\<open>value\<close>, \<^verbatim>\<open>arg\<close> and \<^verbatim>\<open>left\<close>, and a
  \<^verbatim>\<open>right\<close> pointer. The tag decides which member of the union is read, so the node is
  the tagged sum below: one constructor per combinator, and a leaf that carries its kind
  together with the integer parameter of the kinds that have one. \<open>AE_Other\<close> and
  \<open>BE_Other\<close> stand for every tag that the \<^verbatim>\<open>switch\<close> does not list (its
  \<^verbatim>\<open>default\<close> branch).
\<close>

datatype atom_leaf =
    AE_True | AE_False | AE_Aromatic | AE_Aliphatic | AE_Cyclic | AE_Acyclic
  | AE_Isotope int | AE_AtomicNumber int | AE_AromaticElement int | AE_AliphaticElement int
  | AE_Degree int | AE_Valence int | AE_Connectivity int | AE_TotalH int | AE_ImplicitH int
  | AE_RingMembership int | AE_RingSize int | AE_RingConnectivity int | AE_Charge int
  | AE_Chirality int | AE_AtomClass int | AE_Recursive int | AE_Other

datatype bond_leaf =
    BE_True | BE_False | BE_Single | BE_Double | BE_Triple | BE_Quadriple | BE_Aromatic
  | BE_Up | BE_Down | BE_Ring | BE_Other

datatype 'l SmartsExpr =
    Leaf 'l
  | OP_Not "'l SmartsExpr"
  | OP_AndHi "'l SmartsExpr" "'l SmartsExpr"
  | OP_AndLo "'l SmartsExpr" "'l SmartsExpr"
  | OP_And "'l SmartsExpr" "'l SmartsExpr"
  | OP_Or "'l SmartsExpr" "'l SmartsExpr"

type_synonym SmartsAtomExpr = "atom_leaf SmartsExpr"
type_synonym SmartsBondExpr = "bond_leaf SmartsExpr"

subsection \<open>External capabilities consumed by the matchers\<close>

text \<open>
  The molecule, the ring set and the isomorphism search are collaborators outside
  smarts.h. Each is taken as a record of the functions the matchers call, over an
  arbitrary type \<open>'a\<close> of target atoms and \<open>'b\<close> of target bonds.
\<close>

record ('a, 'b) Molecule =
  is_aromatic :: "'a \<Rightarrow> bool"
  get_mass :: "'a \<Rightarrow> int"
  get_element :: "'a \<Rightarrow> int"
  get_degree :: "'a \<Rightarrow> int"
  get_valence :: "'a \<Rightarrow> int"
  get_connectivity :: "'a \<Rightarrow> int"
  num_hydrogens :: "'a \<Rightarrow> int"
  get_charge :: "'a \<Rightarrow> int"
  nbrs :: "'a \<Rightarrow> 'a list"
  get_order :: "'b \<Rightarrow> int"
  is_aromatic_bond :: "'b \<Rightarrow> bool"

record ('a, 'b) RingSet =
  isAtomInRing :: "'a \<Rightarrow> bool"
  numRings :: "'a \<Rightarrow> int"
  isAtomInRingSize :: "'a \<Rightarrow> int \<Rightarrow> bool"
  numRingBonds :: "'a \<Rightarrow> int"
  isBondInRing :: "'b \<Rightarrow> bool"

text \<open>
  The atom matcher holds the ring set and the two tables of recursive sub-queries.
  Of the tables only the sizes are read by the matcher itself (in the assertions); what
  the external \<^verbatim>\<open>isomorphism_search(mol, atom, m_recursiveMols[k], ...)\<close> answers for
  sub-query \<open>k\<close> anchored at an atom is the field \<open>recursive_search\<close>.
\<close>

record ('a, 'b) SmartsAtomMatcher =
  m_rings :: "('a, 'b) RingSet"
  m_recursiveMols_size :: nat
  m_recursiveTrees_size :: nat
  recursive_search :: "nat \<Rightarrow> 'a \<Rightarrow> bool"

subsection \<open>SmartsAtomMatcher::match and SmartsBondMatcher::match\<close>

text \<open>
  The loop of the \<^verbatim>\<open>AE_TotalH\<close> case counts the neighbours whose element is 1. The
  count and the implicit hydrogen count are added as 32-bit integers, and the sum is
  compared with the 32-bit parameter: \<open>int32_sum_eq a b v\<close> is that comparison, with the
  wrap-around of the addition.
\<close>

definition count_hydrogen_nbrs :: "('a, 'b) Molecule \<Rightarrow> 'a \<Rightarrow> int" where
  "count_hydrogen_nbrs mol atom =
     int (length (filter (\<lambda>nbr. get_element mol nbr = 1) (nbrs mol atom)))"

definition int32_sum_eq :: "int \<Rightarrow> int \<Rightarrow> int \<Rightarrow> bool" where
  "int32_sum_eq a b v = ((word_of_int a + word_of_int b :: 32 word) = word_of_int v)"

text \<open>
  \<^verbatim>\<open>expr->value < m_recursiveMols.size()\<close> compares an \<^verbatim>\<open>int\<close> with a
  \<^verbatim>\<open>size_t\<close>: a negative value converts to a huge unsigned number and fails too.
\<close>

definition recursive_index_ok :: "int \<Rightarrow> nat \<Rightarrow> bool" where
  "recursive_index_ok v n = (0 \<le> v \<and> nat v < n)"

fun match_atom_leaf ::
  "('a, 'b) SmartsAtomMatcher \<Rightarrow> ('a, 'b) Molecule \<Rightarrow> 'a \<Rightarrow> atom_leaf \<Rightarrow> error + bool" where
  "match_atom_leaf M mol atom AE_True = Inr True"
| "match_atom_leaf M mol atom AE_False = Inr False"
| "match_atom_leaf M mol atom AE_Aromatic = Inr (is_aromatic mol atom)"
| "match_atom_leaf M mol atom AE_Aliphatic = Inr (\<not> is_aromatic mol atom)"
| "match_atom_leaf M mol atom AE_Cyclic = Inr (isAtomInRing (m_rings M) atom)"
| "match_atom_leaf M mol atom AE_Acyclic = Inr (\<not> isAtomInRing (m_rings M) atom)"
| "match_atom_leaf M mol atom (AE_Isotope v) = Inr (get_mass mol atom = v)"
| "match_atom_leaf M mol atom (AE_AtomicNumber v) = Inr (get_element mol atom = v)"
| "match_atom_leaf M mol atom (AE_AromaticElement v) =
     Inr (get_element mol atom = v \<and> is_aromatic mol atom)"
| "match_atom_leaf M mol atom (AE_AliphaticElement v) =
     Inr (get_element mol atom = v \<and> \<not> is_aromatic mol atom)"
| "match_atom_leaf M mol atom (AE_Degree v) = Inr (get_degree mol atom = v)"
| "match_atom_leaf M mol atom (AE_Valence v) = Inr (get_valence mol atom = v)"
| "match_atom_leaf M mol atom (AE_Connectivity v) = Inr (get_connectivity mol atom = v)"
| "match_atom_leaf M mol atom (AE_TotalH v) =
     Inr (int32_sum_eq (count_hydrogen_nbrs mol atom) (num_hydrogens mol atom) v)"
| "match_atom_leaf M mol atom (AE_ImplicitH v) =
     (if v = - 1 then Inr (num_hydrogens mol atom \<ge> 1)
      else Inr (num_hydrogens mol atom = v))"
| "match_atom_leaf M mol atom (AE_RingMembership v) = Inr (numRings (m_rings M) atom = v)"
| "match_atom_leaf M mol atom (AE_RingSize v) = Inr (isAtomInRingSize (m_rings M) atom v)"
| "match_atom_leaf M mol atom (AE_RingConnectivity v) =
     (if v = - 1 then Inr (numRingBonds (m_rings M) atom \<ge> 1)
      else Inr (numRingBonds (m_rings M) atom = v))"
| "match_atom_leaf M mol atom (AE_Charge v) = Inr (get_charge mol atom = v)"
| "match_atom_leaf M mol atom (AE_Chirality v) = Inr True"
| "match_atom_leaf M mol atom (AE_AtomClass v) = Inr True"
| "match_atom_leaf M mol atom (AE_Recursive v) =
     (if \<not> recursive_index_ok v (m_recursiveMols_size M) then Inl assertion_failed
      else if \<not> recursive_index_ok v (m_recursiveTrees_size M) then Inl assertion_failed
      else Inr (recursive_search M (nat v) atom))"
| "match_atom_leaf M mol atom AE_Other = Inr True"

text \<open>
  The combinators. C++ \<^verbatim>\<open>&&\<close> and \<^verbatim>\<open>||\<close> evaluate the left operand first and the
  right operand only when the left one does not decide the result; an abort of the
  operand that is evaluated aborts the whole evaluation.
\<close>

fun match_atom ::
  "('a, 'b) SmartsAtomMatcher \<Rightarrow> ('a, 'b) Molecule \<Rightarrow> 'a \<Rightarrow> SmartsAtomExpr \<Rightarrow> error + bool" where
  "match_atom M mol atom (Leaf l) = match_atom_leaf M mol atom l"
| "match_atom M mol atom (OP_Not arg) =
     (case match_atom M mol atom arg of Inl e \<Rightarrow> Inl e | Inr b \<Rightarrow> Inr (\<not> b))"
| "match_atom M mol atom (OP_AndHi left right) =
     (case match_atom M mol atom left of
        Inl e \<Rightarrow> Inl e
      | Inr b \<Rightarrow> if b then match_atom M mol atom right else Inr False)"
| "match_atom M mol atom (OP_AndLo left right) =
     (case match_atom M mol atom left of
        Inl e \<Rightarrow> Inl e
      | Inr b \<Rightarrow> if b then match_atom M mol atom right else Inr False)"
| "match_atom M mol atom (OP_And left right) =
     (case match_atom M mol atom left of
        Inl e \<Rightarrow> Inl e
      | Inr b \<Rightarrow> if b then match_atom M mol atom right else Inr False)"
| "match_atom M mol atom (OP_Or left right) =
     (case match_atom M mol atom left of
        Inl e \<Rightarrow> Inl e
      | Inr b \<Rightarrow> if b then Inr True else match_atom M mol atom right)"

text \<open>
  No leaf of the bond matcher can abort, so its result is a plain \<open>bool\<close> and the
  short-circuit operators are the logical connectives.
\<close>

fun match_bond_leaf :: "('a, 'b) RingSet \<Rightarrow> ('a, 'b) Molecule \<Rightarrow> 'b \<Rightarrow> bond_leaf \<Rightarrow> bool" where
  "match_bond_leaf rings mol bond BE_True = True"
| "match_bond_leaf rings mol bond BE_False = False"
| "match_bond_leaf rings mol bond BE_Single = (get_order mol bond = 1)"
| "match_bond_leaf rings mol bond BE_Double = (get_order mol bond = 2)"
| "match_bond_leaf rings mol bond BE_Triple = (get_order mol bond = 3)"
| "match_bond_leaf rings mol bond BE_Quadriple = (get_order mol bond = 4)"
| "match_bond_leaf rings mol bond BE_Aromatic = is_aromatic_bond mol bond"
| "match_bond_leaf rings mol bond BE_Up = True"
| "match_bond_leaf rings mol bond BE_Down = True"
| "match_bond_leaf rings mol bond BE_Ring = isBondInRing rings bond"
| "match_bond_leaf rings mol bond BE_Other = True"

fun match_bond :: "('a, 'b) RingSet \<Rightarrow> ('a, 'b) Molecule \<Rightarrow> 'b \<Rightarrow> SmartsBondExpr \<Rightarrow> bool" where
  "match_bond rings mol bond (Leaf l) = match_bond_leaf rings mol bond l"
| "match_bond rings mol bond (OP_Not arg) = (\<not> match_bond rings mol bond arg)"
| "match_bond rings mol bond (OP_AndHi left right) =
     (if match_bond rings mol bond left then match_bond rings mol bond right else False)"
| "match_bond rings mol bond (OP_AndLo left right) =
     (if match_bond rings mol bond left then match_bond rings mol bond right else False)"
| "match_bond rings mol bond (OP_And left right) =
     (if match_bond rings mol bond left then match_bond rings mol bond right else False)"
| "match_bond rings mol bond (OP_Or left right) =
     (if match_bond rings mol bond left then True else match_bond rings mol bond right)"

subsection \<open>Fragment mapping combiner (smarts.h, impl::enumerate_mappings)\<close>

text \<open>
  Modelled from the spec: the types \<^verbatim>\<open>IsomorphismMapping\<close> and \<^verbatim>\<open>MappingList\<close> of
  isomorphism.h, which is not among the sources. A Mapping is a "fixed-length array, one
  slot per query atom in a fragment, holding the assigned target-graph atom identity or a
  null sentinel"; a Mapping Set is "all mappings found for one fragment", the vector
  \<^verbatim>\<open>maps\<close> that smarts.h reads. Atom identities are values of \<^verbatim>\<open>Index\<close>, which is
  \<^verbatim>\<open>unsigned int\<close> (molecule.h); the null sentinel is the \<^verbatim>\<open>-1\<close> that smarts.h
  writes, converted to \<^verbatim>\<open>Index\<close>.
\<close>

type_synonym Index = "32 word"
type_synonym IsomorphismMapping = "Index list"
type_synonym MappingList = "IsomorphismMapping list"

definition null_sentinel :: Index where
  "null_sentinel = - 1"

fun mappings_overlap :: "IsomorphismMapping \<Rightarrow> IsomorphismMapping \<Rightarrow> bool" where
  "mappings_overlap [] m2 = False"
| "mappings_overlap (x # m1) m2 = (if x \<in> set m2 then True else mappings_overlap m1 m2)"

text \<open>
  The inner loop \<^verbatim>\<open>for j < next.size(): map[atomMaps[fragment][j]] = next[j]\<close>, with
  \<open>gmap\<close> for the global mapping \<^verbatim>\<open>map\<close>.
\<close>

definition translate_step ::
  "Index list list \<Rightarrow> nat \<Rightarrow> IsomorphismMapping \<Rightarrow> nat \<Rightarrow> IsomorphismMapping \<Rightarrow>
   error + IsomorphismMapping" where
  "translate_step atomMaps fragment next j gmap =
     (case vec_get atomMaps fragment of
        Inl e \<Rightarrow> Inl e
      | Inr amap \<Rightarrow>
          (case vec_get amap j of
             Inl e \<Rightarrow> Inl e
           | Inr slot \<Rightarrow> vec_set gmap (unat slot) (next ! j)))"

definition translate ::
  "Index list list \<Rightarrow> nat \<Rightarrow> IsomorphismMapping \<Rightarrow> IsomorphismMapping \<Rightarrow>
   error + IsomorphismMapping" where
  "translate atomMaps fragment next gmap =
     fold (\<lambda>j st. case st of Inl e \<Rightarrow> Inl e | Inr m \<Rightarrow> translate_step atomMaps fragment next j m)
       [0..<length next] (Inr gmap)"

text \<open>
  \<^verbatim>\<open>enumerate_mappings\<close> is a template over the collector type; the overloaded
  \<^verbatim>\<open>impl::add_mapping\<close> (isomorphism.h) of that collector is the parameter \<open>add\<close>.
  The pair \<open>(output, match)\<close> is the state behind the two reference parameters.
\<close>

function enumerate_mappings ::
  "nat \<Rightarrow> MappingList list \<Rightarrow> IsomorphismMapping \<Rightarrow> Index list list \<Rightarrow>
   ('o \<Rightarrow> IsomorphismMapping \<Rightarrow> 'o) \<Rightarrow> 'o \<times> bool \<Rightarrow> error + 'o \<times> bool" where
  "enumerate_mappings fragment mappings current atomMaps add (output, match) =
     (if fragment < length mappings then
        fold (\<lambda>next st.
            case st of
              Inl e \<Rightarrow> Inl e
            | Inr (output, match) \<Rightarrow>
                if mappings_overlap current next then Inr (output, match)
                else
                  (case translate atomMaps fragment next current of
                     Inl e \<Rightarrow> Inl e
                   | Inr gmap \<Rightarrow>
                       if fragment + 1 < length mappings then
                         enumerate_mappings (fragment + 1) mappings gmap atomMaps add (output, match)
                       else if null_sentinel \<in> set gmap then Inl assertion_failed
                       else Inr (add output gmap, True)))
          (mappings ! fragment) (Inr (output, match))
      else Inl out_of_bounds)"
  by pat_completeness auto
termination
  by (relation "measure (\<lambda>(fragment, mappings, current, atomMaps, add, st). length mappings - fragment)")
    auto

subsection \<open>Smarts::search\<close>

text \<open>
  What \<^verbatim>\<open>Smarts::search\<close> consumes from outside smarts.h, for one target molecule and
  ring set: the atom count of a query fragment, the single-fragment search that fills the
  caller's collector, and the Mapping Set of a fragment.
\<close>

record ('q, 'o) external_search =
  num_atoms :: "'q \<Rightarrow> nat"
  search_into :: "nat \<Rightarrow> 'q \<Rightarrow> 'o \<Rightarrow> bool \<times> 'o"
  mapping_set :: "nat \<Rightarrow> 'q \<Rightarrow> IsomorphismMapping list"

text \<open>
  Modelled from the spec: \<^verbatim>\<open>isomorphism_search\<close> called with a \<^verbatim>\<open>MappingList\<close>
  collector (isomorphism.h is not among the sources). The subgraph-isomorphism capability
  "returns whether (and optionally all ways) the query graph can be mapped into the target
  graph": the collector receives the fragment's whole Mapping Set and the result says
  whether there is a mapping.
\<close>

definition isomorphism_search_all ::
  "('q, 'o) external_search \<Rightarrow> nat \<Rightarrow> 'q \<Rightarrow> MappingList \<Rightarrow> bool \<times> MappingList" where
  "isomorphism_search_all ext i q ml = (mapping_set ext i q \<noteq> [], ml @ mapping_set ext i q)"

record 'q Smarts =
  m_query :: "'q list"
  m_atomMaps :: "Index list list"

text \<open>
  The loop over the fragments. Its state is \<^verbatim>\<open>numQueryAtoms\<close>, the vector
  \<^verbatim>\<open>mappings\<close>, and the fragments handed to the isomorphism search so far; the first
  component of the result is \<open>None\<close> when the loop leaves by \<^verbatim>\<open>return false\<close>.
\<close>

function search_fragments ::
  "('q, 'o) external_search \<Rightarrow> 'q list \<Rightarrow> nat \<Rightarrow> nat \<times> MappingList list \<times> nat list \<Rightarrow>
   (nat \<times> MappingList list) option \<times> nat list" where
  "search_fragments ext qs i (numQueryAtoms, mappings, calls) =
     (if i < length qs then
        (let n = numQueryAtoms + num_atoms ext (qs ! i);
             (found, ml) = isomorphism_search_all ext i (qs ! i) (mappings ! i)
         in if \<not> found then (None, calls @ [i])
            else search_fragments ext qs (i + 1) (n, mappings[i := ml], calls @ [i]))
      else (Some (numQueryAtoms, mappings), calls))"
  by pat_completeness auto
termination
  by (relation "measure (\<lambda>(ext, qs, i, st). length qs - i)") auto

text \<open>
  The result of \<open>Smarts_search\<close> is the returned flag, the caller's collector afterwards,
  and the list of fragments on which the isomorphism search was invoked.
\<close>

definition Smarts_search ::
  "('q, 'o) external_search \<Rightarrow> ('o \<Rightarrow> IsomorphismMapping \<Rightarrow> 'o) \<Rightarrow> 'q Smarts \<Rightarrow> 'o \<Rightarrow>
   error + bool \<times> 'o \<times> nat list" where
  "Smarts_search ext add S mapping =
     (if m_query S = [] then Inr (False, mapping, [])
      else if length (m_query S) = 1 then
        (let (r, mapping') = search_into ext 0 (m_query S ! 0) mapping in Inr (r, mapping', [0]))
      else
        (case search_fragments ext (m_query S) 0 (0, replicate (length (m_query S)) [], []) of
           (None, calls) \<Rightarrow> Inr (False, mapping, calls)
         | (Some (numQueryAtoms, mappings), calls) \<Rightarrow>
             (case enumerate_mappings 0 mappings (replicate numQueryAtoms null_sentinel)
                     (m_atomMaps S) add (mapping, False) of
                Inl e \<Rightarrow> Inl e
              | Inr (mapping', match) \<Rightarrow> Inr (match, mapping', calls))))"

text \<open>
  Modelled from the spec: \<^verbatim>\<open>impl::add_mapping\<close> for a \<^verbatim>\<open>MappingList\<close> collector
  (isomorphism.h is not among the sources). "A multi-result collector enumerates every
  disjoint combination": each emitted mapping is appended to the collector's list.
\<close>

definition add_mapping_list :: "MappingList \<Rightarrow> IsomorphismMapping \<Rightarrow> MappingList" where
  "add_mapping_list output gmap = output @ [gmap]"

text \<open>
  A three-fragment query of one atom each, against a target in which only the first
  fragment has a mapping.
\<close>

definition example_ext :: "(unit, MappingList) external_search" where
  "example_ext = \<lparr> num_atoms = (\<lambda>q. 1), search_into = (\<lambda>i q out. (False, out)),
     mapping_set = (\<lambda>i q. if i = 0 then [[0]] else []) \<rparr>"

definition example_smarts :: "unit Smarts" where
  "example_smarts = \<lparr> m_query = [(), (), ()], m_atomMaps = [[0], [1], [2]] \<rparr>"

definition empty_smarts :: "unit Smarts" where
  "empty_smarts = \<lparr> m_query = [], m_atomMaps = [] \<rparr>"

text \<open>Concrete targets used to exercise the evaluator.\<close>

definition example_mol :: "(nat, nat) Molecule" where
  "example_mol = \<lparr> is_aromatic = (\<lambda>a. a = 0), get_mass = (\<lambda>a. 12), get_element = (\<lambda>a. 6),
     get_degree = (\<lambda>a. 2), get_valence = (\<lambda>a. 4), get_connectivity = (\<lambda>a. 4),
     num_hydrogens = (\<lambda>a. if a = 0 then 2 else 0), get_charge = (\<lambda>a. 0),
     nbrs = (\<lambda>a. []), get_order = (\<lambda>b. 1), is_aromatic_bond = (\<lambda>b. False) \<rparr>"

definition example_rings :: "(nat, nat) RingSet" where
  "example_rings = \<lparr> isAtomInRing = (\<lambda>a. a = 0), numRings = (\<lambda>a. if a = 0 then 1 else 0),
     isAtomInRingSize = (\<lambda>a n. a = 0 \<and> n = 6), numRingBonds = (\<lambda>a. if a = 0 then 2 else 0),
     isBondInRing = (\<lambda>b. False) \<rparr>"

definition example_matcher :: "(nat, nat) SmartsAtomMatcher" where
  "example_matcher = \<lparr> m_rings = example_rings, m_recursiveMols_size = 0,
     m_recursiveTrees_size = 0, recursive_search = (\<lambda>k a. False) \<rparr>"

subsection \<open>Loops with an early exit on error\<close>

text \<open>
  \<^verbatim>\<open>for (i = 0; i < n; ++i) body\<close> over a state, where the body may fail: the first
  failure ends the loop.
\<close>

definition for_loop :: "nat \<Rightarrow> (nat \<Rightarrow> 's \<Rightarrow> error + 's) \<Rightarrow> 's \<Rightarrow> error + 's" where
  "for_loop n body s =
     fold (\<lambda>i st. case st of Inl e \<Rightarrow> Inl e | Inr s' \<Rightarrow> body i s') [0..<n] (Inr s)"

subsection \<open>Bit vectors (bitvec.h)\<close>

text \<open>
  Modelled from the spec: bitvec.h is not among the sources. A fingerprint is "a bit
  vector of a fixed configured width, addressable by bit index for set/test", stored in
  an array of machine words; the word has 64 bits (the value the writer below hard-codes,
  and the constant the spec asks to assert for \<^verbatim>\<open>bits_per_word\<close>). Bit \<open>index\<close> is bit
  \<open>index mod 64\<close> of word \<open>index div 64\<close>. A row-major fingerprint of \<open>numBits\<close> bits
  takes \<open>ceil(numBits / 64)\<close> words.
\<close>

type_synonym Word = "64 word"

definition BitsPerWord :: nat where
  "BitsPerWord = 64"

definition bitvec_get :: "nat \<Rightarrow> Word list \<Rightarrow> error + bool" where
  "bitvec_get index bitvec =
     (case vec_get bitvec (index div BitsPerWord) of
        Inl e \<Rightarrow> Inl e
      | Inr w \<Rightarrow> Inr (bit w (index mod BitsPerWord)))"

definition bitvec_set :: "nat \<Rightarrow> Word list \<Rightarrow> error + Word list" where
  "bitvec_set index bitvec =
     (case vec_get bitvec (index div BitsPerWord) of
        Inl e \<Rightarrow> Inl e
      | Inr w \<Rightarrow> vec_set bitvec (index div BitsPerWord) (w OR push_bit (index mod BitsPerWord) 1))"

definition bitvec_num_words_for_bits :: "nat \<Rightarrow> nat" where
  "bitvec_num_words_for_bits numBits = (numBits + (BitsPerWord - 1)) div BitsPerWord"

text \<open>
  \<^verbatim>\<open>new Word[n]\<close> does not initialise the words. Their contents are whatever the
  allocator hands out, given here by \<open>fresh\<close>.
\<close>

definition new_Words :: "(nat \<Rightarrow> Word) \<Rightarrow> nat \<Rightarrow> Word list" where
  "new_Words fresh n = map fresh [0..<n]"

subsection \<open>Inverted fingerprint file (fingerprints.h)\<close>

text \<open>The header is a native struct of six \<^verbatim>\<open>unsigned int\<close> fields.\<close>

record InvertedFingerprintFileHeader =
  magic_number :: "32 word"
  bits_per_word :: "32 word"
  bits_per_fingerprint :: "32 word"
  words_per_fingerprint :: "32 word"
  words_per_fpbit :: "32 word"
  num_fingerprints :: "32 word"

definition get_magic_number :: "32 word" where
  "get_magic_number = 0x48650001"

text \<open>
  The constructor \<^verbatim>\<open>InvertedFingerprintFileHeader()\<close> sets \<^verbatim>\<open>magic_number\<close> and leaves
  the other five fields as they are in memory, given here by \<open>garbage\<close>.
\<close>

definition InvertedFingerprintFileHeader_init ::
  "InvertedFingerprintFileHeader \<Rightarrow> InvertedFingerprintFileHeader" where
  "InvertedFingerprintFileHeader_init garbage = garbage \<lparr> magic_number := get_magic_number \<rparr>"

text \<open>
  A file on disk: the \<^verbatim>\<open>unsigned int\<close> fields of the header struct that the file holds,
  in the order of the struct (six of them, fewer when the file ends before the header is
  complete, none for an empty file), followed by the payload. The payload is only ever
  written and read in whole words, so it is a list of words. The byte layout inside a
  field or a word is not modelled.
\<close>

record inverted_file =
  file_header :: "32 word list"
  file_data :: "Word list"

definition header_fields :: "InvertedFingerprintFileHeader \<Rightarrow> 32 word list" where
  "header_fields h =
     [magic_number h, bits_per_word h, bits_per_fingerprint h, words_per_fingerprint h,
      words_per_fpbit h, num_fingerprints h]"

definition header_of_fields :: "32 word list \<Rightarrow> InvertedFingerprintFileHeader" where
  "header_of_fields xs =
     \<lparr> magic_number = xs ! 0, bits_per_word = xs ! 1, bits_per_fingerprint = xs ! 2,
       words_per_fingerprint = xs ! 3, words_per_fpbit = xs ! 4, num_fingerprints = xs ! 5 \<rparr>"

text \<open>
  \<^verbatim>\<open>m_ifs.read(reinterpret_cast<char*>(&m_header), sizeof(InvertedFingerprintFileHeader))\<close>:
  the fields the file holds overwrite the leading fields of \<^verbatim>\<open>m_header\<close>, the others
  keep what they held, and the stream fails when the file ends before the sixth field.
  The result is the header afterwards and whether the stream has failed. Neither reader
  tests the stream after this read.
\<close>

definition read_header ::
  "32 word list \<Rightarrow> InvertedFingerprintFileHeader \<Rightarrow> InvertedFingerprintFileHeader \<times> bool" where
  "read_header present h =
     (let got = take 6 present
      in (header_of_fields (got @ drop (length got) (header_fields h)), length got < 6))"

type_synonym file_system = "string \<Rightarrow> inverted_file option"

subsubsection \<open>InvertedFingerprintOutputFile\<close>

text \<open>
  The members \<^verbatim>\<open>m_header\<close>, \<^verbatim>\<open>m_current\<close> and \<^verbatim>\<open>m_data\<close> of the writer; the prefix
  keeps them apart from the members of the two readers.
\<close>

record InvertedFingerprintOutputFile =
  w_header :: InvertedFingerprintFileHeader
  w_current :: "32 word"
  w_data :: "Word list"

text \<open>The part of the constructor under \<^verbatim>\<open>// setup m_header\<close>, in \<^verbatim>\<open>unsigned int\<close> arithmetic.\<close>

definition setup_header :: "32 word \<Rightarrow> 32 word \<Rightarrow> InvertedFingerprintFileHeader" where
  "setup_header bitsPerFingerprint numFingerprints =
     \<lparr> magic_number = get_magic_number,
       bits_per_word = 64,
       bits_per_fingerprint = bitsPerFingerprint,
       words_per_fingerprint = bitsPerFingerprint div 64,
       words_per_fpbit = (numFingerprints + numFingerprints mod 64) div 64,
       num_fingerprints = numFingerprints \<rparr>"

text \<open>
  The constructor; \<open>ofs_good\<close> says whether the output stream could be opened, \<open>fresh\<close>
  gives the contents of the allocated \<^verbatim>\<open>m_data\<close>. The message of an exception is what
  \<^verbatim>\<open>make_string\<close> (util.h) builds from its arguments, their concatenation.
\<close>

definition InvertedFingerprintOutputFile_init ::
  "string \<Rightarrow> bool \<Rightarrow> (nat \<Rightarrow> Word) \<Rightarrow> 32 word \<Rightarrow> 32 word \<Rightarrow> error + InvertedFingerprintOutputFile" where
  "InvertedFingerprintOutputFile_init filename ofs_good fresh bitsPerFingerprint numFingerprints =
     (let h = setup_header bitsPerFingerprint numFingerprints in
      if \<not> ofs_good then Inl (runtime_error (''Could not open '' @ filename @ '' for writing.''))
      else Inr \<lparr> w_header = h, w_current = 0,
                 w_data = new_Words fresh (unat (words_per_fpbit h * bits_per_fingerprint h)) \<rparr>)"

text \<open>
  The body of the loop of \<^verbatim>\<open>write\<close>. The bit index
  \<^verbatim>\<open>i * m_header.words_per_fpbit * 64 + m_current\<close> is computed in \<^verbatim>\<open>unsigned int\<close>.
\<close>

definition write_bit ::
  "InvertedFingerprintFileHeader \<Rightarrow> 32 word \<Rightarrow> Word list \<Rightarrow> nat \<Rightarrow> Word list \<Rightarrow> error + Word list" where
  "write_bit h current fingerprint i data =
     (case bitvec_get i fingerprint of
        Inl e \<Rightarrow> Inl e
      | Inr b \<Rightarrow>
          if \<not> b then Inr data
          else bitvec_set (unat (of_nat i * words_per_fpbit h * 64 + current)) data)"

definition InvertedFingerprintOutputFile_write ::
  "InvertedFingerprintOutputFile \<Rightarrow> Word list \<Rightarrow> error + InvertedFingerprintOutputFile" where
  "InvertedFingerprintOutputFile_write w fingerprint =
     (case for_loop (unat (bits_per_fingerprint (w_header w)))
             (write_bit (w_header w) (w_current w) fingerprint) (w_data w) of
        Inl e \<Rightarrow> Inl e
      | Inr data \<Rightarrow> Inr (w \<lparr> w_data := data, w_current := w_current w + 1 \<rparr>))"

text \<open>The destructor: the header was written by the constructor, the data follows.\<close>

definition InvertedFingerprintOutputFile_close :: "InvertedFingerprintOutputFile \<Rightarrow> inverted_file" where
  "InvertedFingerprintOutputFile_close w =
     \<lparr> file_header = header_fields (w_header w), file_data = w_data w \<rparr>"

text \<open>
  Building an index from the fingerprints \<open>f_0 .. f_(n-1)\<close>: construct the writer for
  \<open>n\<close> fingerprints, \<^verbatim>\<open>write\<close> each in order, destroy the writer.
\<close>

definition write_all ::
  "InvertedFingerprintOutputFile \<Rightarrow> Word list list \<Rightarrow> error + InvertedFingerprintOutputFile" where
  "write_all w fingerprints =
     fold (\<lambda>f st. case st of Inl e \<Rightarrow> Inl e | Inr w' \<Rightarrow> InvertedFingerprintOutputFile_write w' f)
       fingerprints (Inr w)"

definition build_inverted_index ::
  "string \<Rightarrow> (nat \<Rightarrow> Word) \<Rightarrow> 32 word \<Rightarrow> Word list list \<Rightarrow> error + inverted_file" where
  "build_inverted_index filename fresh bitsPerFingerprint fingerprints =
     (case InvertedFingerprintOutputFile_init filename True fresh bitsPerFingerprint
             (of_nat (length fingerprints)) of
        Inl e \<Rightarrow> Inl e
      | Inr w \<Rightarrow>
          (case write_all w fingerprints of
             Inl e \<Rightarrow> Inl e
           | Inr w' \<Rightarrow> Inr (InvertedFingerprintOutputFile_close w')))"

subsubsection \<open>The result loops shared by both readers\<close>

text \<open>
  \<^verbatim>\<open>for j < words_per_fpbit: result[j] = row[j]\<close> and
  \<^verbatim>\<open>for j < words_per_fpbit: result[j] &= row[j]\<close>, where \<open>row_at j\<close> reads the word
  the reader takes for position \<open>j\<close>.
\<close>

definition assign_result :: "nat \<Rightarrow> (nat \<Rightarrow> error + Word) \<Rightarrow> Word list \<Rightarrow> error + Word list" where
  "assign_result n row_at result =
     for_loop n (\<lambda>j res. case row_at j of Inl e \<Rightarrow> Inl e | Inr w \<Rightarrow> vec_set res j w) result"

definition intersect_result :: "nat \<Rightarrow> (nat \<Rightarrow> error + Word) \<Rightarrow> Word list \<Rightarrow> error + Word list" where
  "intersect_result n row_at result =
     for_loop n (\<lambda>j res.
        case row_at j of
          Inl e \<Rightarrow> Inl e
        | Inr w \<Rightarrow> (case vec_get res j of Inl e \<Rightarrow> Inl e | Inr r \<Rightarrow> vec_set res j (r AND w)))
       result"

subsubsection \<open>InvertedFingerprintFileCached\<close>

record InvertedFingerprintFileCached =
  c_header :: InvertedFingerprintFileHeader
  c_data :: "Word list"

text \<open>
  The constructor: \<open>garbage\<close> is what the memory of \<^verbatim>\<open>m_header\<close> held. After the header
  it reads \<^verbatim>\<open>words_per_fpbit * bits_per_fingerprint\<close> words into the fresh \<^verbatim>\<open>m_data\<close>; a
  shorter file leaves the rest of \<^verbatim>\<open>m_data\<close> as allocated, and a stream that failed on
  the header reads nothing.
\<close>

definition InvertedFingerprintFileCached_init ::
  "file_system \<Rightarrow> InvertedFingerprintFileHeader \<Rightarrow> (nat \<Rightarrow> Word) \<Rightarrow> string \<Rightarrow>
   error + InvertedFingerprintFileCached" where
  "InvertedFingerprintFileCached_init fs garbage fresh filename =
     (case fs filename of
        None \<Rightarrow> Inl (runtime_error (''Could not open '' @ filename @ '' for reading.''))
      | Some f \<Rightarrow>
          let (h, failed) = read_header (file_header f) (InvertedFingerprintFileHeader_init garbage) in
          if magic_number h \<noteq> get_magic_number
          then Inl (runtime_error (filename @ '' is not an inverted fingerprint file.''))
          else
            let n = unat (words_per_fpbit h * bits_per_fingerprint h);
                buf = new_Words fresh n;
                got = (if failed then [] else take n (file_data f))
            in Inr \<lparr> c_header = h, c_data = got @ drop (length got) buf \<rparr>)"

text \<open>
  One iteration of the loop of \<^verbatim>\<open>search\<close> over the bit positions; the state is the
  flag \<^verbatim>\<open>first\<close> and the caller's result buffer.
\<close>

definition cached_search_bit ::
  "InvertedFingerprintFileCached \<Rightarrow> Word list \<Rightarrow> nat \<Rightarrow> bool \<times> Word list \<Rightarrow> error + bool \<times> Word list" where
  "cached_search_bit c fingerprint i st =
     (case bitvec_get i fingerprint of
        Inl e \<Rightarrow> Inl e
      | Inr b \<Rightarrow>
          if \<not> b then Inr st
          else
            let offset = of_nat i * words_per_fpbit (c_header c);
                n = unat (words_per_fpbit (c_header c));
                row_at = (\<lambda>j. vec_get (c_data c) (unat (offset + of_nat j)))
            in if fst st
               then (case assign_result n row_at (snd st) of
                       Inl e \<Rightarrow> Inl e | Inr res \<Rightarrow> Inr (False, res))
               else (case intersect_result n row_at (snd st) of
                       Inl e \<Rightarrow> Inl e | Inr res \<Rightarrow> Inr (False, res)))"

definition InvertedFingerprintFileCached_search ::
  "InvertedFingerprintFileCached \<Rightarrow> Word list \<Rightarrow> Word list \<Rightarrow> error + Word list" where
  "InvertedFingerprintFileCached_search c fingerprint result =
     (case for_loop (unat (bits_per_fingerprint (c_header c))) (cached_search_bit c fingerprint)
             (True, result) of
        Inl e \<Rightarrow> Inl e
      | Inr st \<Rightarrow> Inr (snd st))"

subsubsection \<open>InvertedFingerprintFile\<close>

text \<open>
  The input stream of the on-demand reader, positioned in words from the first word after
  the header. A stream that has failed ignores \<^verbatim>\<open>seekg\<close> and \<^verbatim>\<open>read\<close>; a \<^verbatim>\<open>read\<close> that
  meets the end of the file stores the words it got and fails the stream.
\<close>

record ifstream =
  ifs_words :: "Word list"
  ifs_pos :: nat
  ifs_failed :: bool

definition seekg :: "ifstream \<Rightarrow> nat \<Rightarrow> ifstream" where
  "seekg s p = (if ifs_failed s then s else s \<lparr> ifs_pos := p \<rparr>)"

definition read_words :: "ifstream \<Rightarrow> nat \<Rightarrow> Word list \<Rightarrow> error + ifstream \<times> Word list" where
  "read_words s n buf =
     (if ifs_failed s then Inr (s, buf)
      else if length buf < n then Inl out_of_bounds
      else
        let got = take n (drop (ifs_pos s) (ifs_words s))
        in Inr (s \<lparr> ifs_pos := ifs_pos s + length got, ifs_failed := length got < n \<rparr>,
                got @ drop (length got) buf))"

record InvertedFingerprintFile =
  r_header :: InvertedFingerprintFileHeader
  r_ifs :: ifstream
  r_data :: "Word list"

text \<open>
  The constructor: \<open>garbage\<close> is what the memory of \<^verbatim>\<open>m_header\<close> held. The stream keeps
  the state the header read left it in.
\<close>

definition InvertedFingerprintFile_init ::
  "file_system \<Rightarrow> InvertedFingerprintFileHeader \<Rightarrow> (nat \<Rightarrow> Word) \<Rightarrow> string \<Rightarrow>
   error + InvertedFingerprintFile" where
  "InvertedFingerprintFile_init fs garbage fresh filename =
     (case fs filename of
        None \<Rightarrow> Inl (runtime_error (''Could not open '' @ filename @ '' for reading.''))
      | Some f \<Rightarrow>
          let (h, failed) = read_header (file_header f) (InvertedFingerprintFileHeader_init garbage) in
          if magic_number h \<noteq> get_magic_number
          then Inl (runtime_error (filename @ '' is not an inverted fingerprint file.''))
          else Inr \<lparr> r_header = h,
                     r_ifs = \<lparr> ifs_words = file_data f, ifs_pos = 0, ifs_failed = failed \<rparr>,
                     r_data = new_Words fresh (unat (words_per_fpbit h)) \<rparr>)"

text \<open>
  One iteration of the loop of \<^verbatim>\<open>search\<close>; the state is the reader (its stream and its
  \<^verbatim>\<open>m_data\<close> change), the flag \<^verbatim>\<open>first\<close> and the caller's result buffer.
\<close>

definition ondemand_search_bit ::
  "Word list \<Rightarrow> nat \<Rightarrow> InvertedFingerprintFile \<times> bool \<times> Word list \<Rightarrow>
   error + InvertedFingerprintFile \<times> bool \<times> Word list" where
  "ondemand_search_bit fingerprint i st =
     (case st of (r, first, result) \<Rightarrow>
        (case bitvec_get i fingerprint of
           Inl e \<Rightarrow> Inl e
         | Inr b \<Rightarrow>
             if \<not> b then Inr st
             else
               let offset = of_nat i * words_per_fpbit (r_header r);
                   n = unat (words_per_fpbit (r_header r))
               in (case read_words (seekg (r_ifs r) (unat offset)) n (r_data r) of
                     Inl e \<Rightarrow> Inl e
                   | Inr (ifs', data') \<Rightarrow>
                       let r' = r \<lparr> r_ifs := ifs', r_data := data' \<rparr>;
                           row_at = (\<lambda>j. vec_get data' j)
                       in if first
                          then (case assign_result n row_at result of
                                  Inl e \<Rightarrow> Inl e | Inr res \<Rightarrow> Inr (r', False, res))
                          else (case intersect_result n row_at result of
                                  Inl e \<Rightarrow> Inl e | Inr res \<Rightarrow> Inr (r', False, res)))))"

definition InvertedFingerprintFile_search ::
  "InvertedFingerprintFile \<Rightarrow> Word list \<Rightarrow> Word list \<Rightarrow> error + InvertedFingerprintFile \<times> Word list" where
  "InvertedFingerprintFile_search r fingerprint result =
     (case for_loop (unat (bits_per_fingerprint (r_header r))) (ondemand_search_bit fingerprint)
             (r, True, result) of
        Inl e \<Rightarrow> Inl e
      | Inr (r', first, res) \<Rightarrow> Inr (r', res))"

text \<open>
  The candidate test the index is a filter for: every bit position below \<open>bits\<close> that is
  set in the query \<open>q\<close> is set in the fingerprint \<open>f\<close>.
\<close>

definition fingerprint_subset :: "nat \<Rightarrow> Word list \<Rightarrow> Word list \<Rightarrow> bool" where
  "fingerprint_subset bits q f =
     list_all (\<lambda>b. bitvec_get b q = Inr True \<longrightarrow> bitvec_get b f = Inr True) [0..<bits]"

text \<open>
  The bits of a buffer as a predicate on bit indices (false outside the buffer); the
  proofs below describe every buffer by it.
\<close>

definition bit_at :: "Word list \<Rightarrow> nat \<Rightarrow> bool" where
  "bit_at v k = (k < BitsPerWord * length v \<and> bit (v ! (k div BitsPerWord)) (k mod BitsPerWord))"

text \<open>
  The length of a per-bit bitmap in the words of the spec: \<open>ceil(n / wordBits)\<close> words for
  \<open>n\<close> fingerprints.
\<close>

definition spec_words_per_fpbit :: "nat \<Rightarrow> nat \<Rightarrow> nat" where
  "spec_words_per_fpbit n wordBits = (n + (wordBits - 1)) div wordBits"

text \<open>
  Example data: the four 8-bit fingerprints of the file-format documentation
  (\<^verbatim>\<open>00101100\<close>, \<^verbatim>\<open>10001011\<close>, \<^verbatim>\<open>00000110\<close>, \<^verbatim>\<open>10101100\<close>, leftmost character
  is bit 0) and its query \<^verbatim>\<open>00001011\<close>; the same four followed by 28 fingerprints without
  any bit; memory that happens to be zero; a result buffer of one word.
\<close>

definition doc_fingerprints :: "Word list list" where
  "doc_fingerprints = [[0x34], [0xD1], [0x60], [0x35]]"

definition doc_query :: "Word list" where
  "doc_query = [0xD0]"

definition padded_fingerprints :: "Word list list" where
  "padded_fingerprints = doc_fingerprints @ replicate 28 [0]"

definition zero_memory :: "nat \<Rightarrow> Word" where
  "zero_memory k = 0"

definition padded_header :: InvertedFingerprintFileHeader where
  "padded_header =
     \<lparr> magic_number = 0x48650001, bits_per_word = 64, bits_per_fingerprint = 8,
       words_per_fingerprint = 0, words_per_fpbit = 1, num_fingerprints = 32 \<rparr>"

definition padded_index :: inverted_file where
  "padded_index =
     \<lparr> file_header = [0x48650001, 64, 8, 0, 1, 32],
       file_data = [10, 0, 9, 0, 11, 13, 6, 2] \<rparr>"

definition garbage_header :: InvertedFingerprintFileHeader where
  "garbage_header =
     \<lparr> magic_number = 0xCDCDCDCD, bits_per_word = 7, bits_per_fingerprint = 3,
       words_per_fingerprint = 9, words_per_fpbit = 2, num_fingerprints = 5 \<rparr>"

definition padded_fs :: file_system where
  "padded_fs = Map.empty(''index.hel'' \<mapsto> padded_index)"

definition padded_cached :: InvertedFingerprintFileCached where
  "padded_cached = \<lparr> c_header = padded_header, c_data = file_data padded_index \<rparr>"

definition padded_ondemand :: InvertedFingerprintFile where
  "padded_ondemand =
     \<lparr> r_header = padded_header,
       r_ifs = \<lparr> ifs_words = file_data padded_index, ifs_pos = 0, ifs_failed = False \<rparr>,
       r_data = [0] \<rparr>"

definition empty_query :: "Word list" where
  "empty_query = [0]"

definition prior_result :: "Word list" where
  "prior_result = [5]"

subsection \<open>Row-major fingerprint file (fingerprints.h)\<close>

text \<open>
  \<^verbatim>\<open>BinaryOutputFile\<close> (file.h): the JSON header and the payload written so far. The
  payload of a fingerprint file is written and read in whole words.
\<close>

record BinaryOutputFile =
  out_json :: string
  out_payload :: "Word list"









text \<open>
  What \<^verbatim>\<open>load\<close> sees of a \<^verbatim>\<open>BinaryInputFile\<close> once it is constructed: the state of
  the stream (the conversion to \<^verbatim>\<open>bool\<close> of file.h), the JSON header, and the payload from
  logical offset 0. \<^verbatim>\<open>BinaryInputFile::open\<close> itself is in file.cpp, which is not among
  the sources; \<open>load\<close> below takes its result for each file name as a parameter.
\<close>

record BinaryInputFile =
  in_good :: bool
  in_json :: string
  in_payload :: "Word list"

text \<open>
  Modelled from the spec: reopening a container that was written ("Container header
  round-trip": the reader returns the identical header string and the identical payload at
  the identical logical offsets).
\<close>

definition reopen :: "BinaryOutputFile \<Rightarrow> BinaryInputFile" where
  "reopen f = \<lparr> in_good = True, in_json = out_json f, in_payload = out_payload f \<rparr>"

text \<open>
  The JSON library is external. A parsed header is the map from the names of its members
  to their values as \<^verbatim>\<open>asUInt()\<close> gives them; the parser is a parameter that returns the
  formatted error messages or the parsed header.
\<close>

type_synonym json_value = "string \<Rightarrow> 32 word option"
type_synonym json_reader = "string \<Rightarrow> string + json_value"

record InMemoryRowMajorFingerprintStorage =
  s_json :: string
  s_fingerprints :: "Word list"
  s_numBits :: "32 word"
  s_numFingerprints :: "32 word"

definition missing_attribute :: "string \<Rightarrow> string \<Rightarrow> string" where
  "missing_attribute filename name =
     ''JSON header for file '' @ filename @ '' does not contain '' @ [CHR 0x27] @ name @
     [CHR 0x27] @ '' attribute''"

text \<open>
  \<^verbatim>\<open>load\<close>. The number of words allocated and read is
  \<^verbatim>\<open>bitvec_num_words_for_bits(m_numBits) * m_numFingerprints\<close> in \<^verbatim>\<open>unsigned int\<close>; a
  payload shorter than that leaves the rest of the buffer as allocated.
\<close>

definition load ::
  "(string \<Rightarrow> BinaryInputFile) \<Rightarrow> json_reader \<Rightarrow> (nat \<Rightarrow> Word) \<Rightarrow> string \<Rightarrow>
   error + InMemoryRowMajorFingerprintStorage" where
  "load open_file parse fresh filename =
     (let file = open_file filename in
      if \<not> in_good file
      then Inl (runtime_error (''Could not open fingerprint file '' @ filename))
      else
        (case parse (in_json file) of
           Inl messages \<Rightarrow> Inl (runtime_error messages)
         | Inr data \<Rightarrow>
             if data ''num_bits'' = None
             then Inl (runtime_error (missing_attribute filename ''num_bits''))
             else if data ''num_fingerprints'' = None
             then Inl (runtime_error (missing_attribute filename ''num_fingerprints''))
             else
               let numBits = the (data ''num_bits'');
                   numFingerprints = the (data ''num_fingerprints'');
                   n = (bitvec_num_words_for_bits (unat numBits) * unat numFingerprints) mod 2 ^ 32;
                   buf = new_Words fresh n;
                   got = take n (in_payload file)
               in Inr \<lparr> s_json = in_json file, s_fingerprints = got @ drop (length got) buf,
                         s_numBits = numBits, s_numFingerprints = numFingerprints \<rparr>))"

text \<open>
  \<^verbatim>\<open>fingerprint(index)\<close> returns the pointer
  \<^verbatim>\<open>m_fingerprints + bitvec_num_words_for_bits(m_numBits) * index\<close>: \<open>fingerprint\<close> is its
  offset in words from \<^verbatim>\<open>m_fingerprints\<close>, and \<open>fingerprint_words\<close> is what a caller
  reads through it, the words of one fingerprint.
\<close>

definition fingerprint :: "InMemoryRowMajorFingerprintStorage \<Rightarrow> 32 word \<Rightarrow> nat" where
  "fingerprint st index = (bitvec_num_words_for_bits (unat (s_numBits st)) * unat index) mod 2 ^ 32"


text \<open>Example files for the readers' error paths and for the round trip.\<close>

definition foreign_file :: inverted_file where
  "foreign_file = padded_index \<lparr> file_header := [0x89504E47, 64, 8, 0, 1, 32] \<rparr>"

definition empty_file :: inverted_file where
  "empty_file = \<lparr> file_header = [], file_data = [] \<rparr>"

definition foreign_fs :: file_system where
  "foreign_fs = Map.empty(''picture.png'' \<mapsto> foreign_file, ''empty.hel'' \<mapsto> empty_file)"

definition example_reader :: json_reader where
  "example_reader text =
     (if text = ''{num_bits: 8, num_fingerprints: 2}''
        then Inr (Map.empty(''num_bits'' \<mapsto> 8, ''num_fingerprints'' \<mapsto> 2))
      else if text = ''{num_fingerprints: 2}'' then Inr (Map.empty(''num_fingerprints'' \<mapsto> 2))
      else if text = ''{num_bits: 8}'' then Inr (Map.empty(''num_bits'' \<mapsto> 8))
      else Inl ''syntax error'')"

definition example_open :: "string \<Rightarrow> BinaryInputFile" where
  "example_open filename =
     (if filename = ''a.hel'' then \<lparr> in_good = True, in_json = ''{num_fingerprints: 2}'', in_payload = [] \<rparr>
      else if filename = ''b.hel'' then \<lparr> in_good = True, in_json = ''{num_bits: 8}'', in_payload = [] \<rparr>
      else \<lparr> in_good = False, in_json = [], in_payload = [] \<rparr>)"


definition two_fingerprints_file :: BinaryOutputFile where
  "two_fingerprints_file =
     \<lparr> out_json = ''{num_bits: 8, num_fingerprints: 2}'', out_payload = [0x34, 0xD1] \<rparr>"

definition two_fingerprints_open :: "string \<Rightarrow> BinaryInputFile" where
  "two_fingerprints_open filename = reopen two_fingerprints_file"









subsection \<open>The combinations the combiner is to emit, in the words of the spec\<close>

text \<open>
  A choice is one candidate mapping per fragment; \<open>product_lists\<close> enumerates the choices
  with the fragments and their candidates in their original order. A choice is consistent
  when the target-atom sets of its mappings are pairwise disjoint. Its global mapping
  starts all-null and has the entries of each fragment's mapping translated into the
  global slots the translation table gives.
\<close>

definition targets_disjoint :: "IsomorphismMapping list \<Rightarrow> bool" where
  "targets_disjoint choice = sorted_wrt (\<lambda>m1 m2. set m1 \<inter> set m2 = {}) choice"

definition place :: "Index list \<Rightarrow> IsomorphismMapping \<Rightarrow> IsomorphismMapping \<Rightarrow> IsomorphismMapping" where
  "place amap m g = fold (\<lambda>(slot, atom) g'. g'[unat slot := atom]) (zip amap m) g"

definition fill ::
  "Index list list \<Rightarrow> IsomorphismMapping list \<Rightarrow> IsomorphismMapping \<Rightarrow> IsomorphismMapping" where
  "fill atomMaps choice g = fold (\<lambda>(amap, m) g'. place amap m g') (zip atomMaps choice) g"

definition global_mapping :: "nat \<Rightarrow> Index list list \<Rightarrow> IsomorphismMapping list \<Rightarrow> IsomorphismMapping" where
  "global_mapping n atomMaps choice = fill atomMaps choice (replicate n null_sentinel)"

definition consistent_combinations :: "MappingList list \<Rightarrow> IsomorphismMapping list list" where
  "consistent_combinations mappings = filter targets_disjoint (product_lists mappings)"

text \<open>
  What a compiled multi-fragment query and the Mapping Sets found for it provide: one row
  of the translation table per fragment; the rows name every global slot \<open>0 .. n-1\<close>
  exactly once; every candidate mapping of a fragment has one entry per atom of the
  fragment, and none of its entries is the null sentinel.
\<close>

definition well_formed_fragments :: "nat \<Rightarrow> Index list list \<Rightarrow> MappingList list \<Rightarrow> bool" where
  "well_formed_fragments n atomMaps mappings =
     (mappings \<noteq> [] \<and> distinct (concat atomMaps) \<and>
      unat ` set (concat atomMaps) = {0..<n} \<and>
      list_all2 (\<lambda>amap cands. \<forall>m\<in>set cands. length m = length amap \<and> null_sentinel \<notin> set m)
        atomMaps mappings)"

text \<open>
  Modelled from the spec: a single-result collector (isomorphism.h is not among the
  sources) holds at most one mapping; \<open>add_mapping_single\<close> stores the mapping it is given.
  The second component counts the calls it receives.
\<close>

definition add_mapping_single ::
  "IsomorphismMapping option \<times> nat \<Rightarrow> IsomorphismMapping \<Rightarrow> IsomorphismMapping option \<times> nat" where
  "add_mapping_single output gmap = (Some gmap, Suc (snd output))"

text \<open>
  Example: the query \<^verbatim>\<open>C.C\<close> against the target \<^verbatim>\<open>CC\<close> (each fragment maps to either
  atom), and the query \<^verbatim>\<open>[C:1].[O:2]\<close> against \<^verbatim>\<open>C-O\<close>.
\<close>

definition cc_mappings :: "MappingList list" where
  "cc_mappings = [[[0], [1]], [[0], [1]]]"

definition co_mappings :: "MappingList list" where
  "co_mappings = [[[0]], [[1]]]"

definition two_atom_maps :: "Index list list" where
  "two_atom_maps = [[0], [1]]"

text \<open>
  Two notions for the proofs about the combiner: the global slots named by rows of the
  translation table, and a choice for the remaining fragments that is consistent in itself
  and with the target atoms \<open>used\<close> so far.
\<close>

definition slots_of :: "Index list list \<Rightarrow> nat set" where
  "slots_of amaps = unat ` set (concat amaps)"

definition compatible :: "Index set \<Rightarrow> IsomorphismMapping list \<Rightarrow> bool" where
  "compatible used rest = ((\<forall>m\<in>set rest. set m \<inter> used = {}) \<and> targets_disjoint rest)"

section \<open>Theorems\<close>

subsection \<open>Predicate evaluator\<close>

text \<open>
  Claim C5. An AND node (AndHi, AndLo and And alike) whose left operand evaluates to
  false evaluates to false, and an OR node whose left operand evaluates to true evaluates
  to true, whatever the right operand is: the right operand is not evaluated, so a right
  operand whose own evaluation aborts does not abort the node. The same holds for the
  bond matcher.
\<close>

theorem short_circuit:
  "(match_atom M mol atom left = Inr False \<longrightarrow>
      match_atom M mol atom (OP_AndHi left right) = Inr False \<and>
      match_atom M mol atom (OP_AndLo left right) = Inr False \<and>
      match_atom M mol atom (OP_And left right) = Inr False) \<and>
   (match_atom M mol atom left = Inr True \<longrightarrow>
      match_atom M mol atom (OP_Or left right) = Inr True) \<and>
   (\<not> match_bond rings mol bond bleft \<longrightarrow>
      \<not> match_bond rings mol bond (OP_AndHi bleft bright) \<and>
      \<not> match_bond rings mol bond (OP_AndLo bleft bright) \<and>
      \<not> match_bond rings mol bond (OP_And bleft bright)) \<and>
   (match_bond rings mol bond bleft \<longrightarrow> match_bond rings mol bond (OP_Or bleft bright))"
  by simp

text \<open>
  An instance with a right operand that aborts when evaluated: a recursive-query leaf
  whose index is outside the (empty) table of recursive sub-queries.
\<close>

theorem short_circuit_witness:
  "match_atom example_matcher example_mol 0 (Leaf (AE_Recursive 7)) = Inl assertion_failed \<and>
   match_atom example_matcher example_mol 0 (Leaf AE_False) = Inr False \<and>
   match_atom example_matcher example_mol 0 (OP_AndHi (Leaf AE_False) (Leaf (AE_Recursive 7))) = Inr False \<and>
   match_atom example_matcher example_mol 0 (OP_AndLo (Leaf AE_False) (Leaf (AE_Recursive 7))) = Inr False \<and>
   match_atom example_matcher example_mol 0 (OP_And (Leaf AE_False) (Leaf (AE_Recursive 7))) = Inr False \<and>
   match_atom example_matcher example_mol 0 (Leaf AE_True) = Inr True \<and>
   match_atom example_matcher example_mol 0 (OP_Or (Leaf AE_True) (Leaf (AE_Recursive 7))) = Inr True \<and>
   \<not> match_bond example_rings example_mol 0 (Leaf BE_False) \<and>
   \<not> match_bond example_rings example_mol 0 (OP_And (Leaf BE_False) (Leaf BE_Ring)) \<and>
   match_bond example_rings example_mol 0 (Leaf BE_True) \<and>
   match_bond example_rings example_mol 0 (OP_Or (Leaf BE_True) (Leaf BE_Ring))"
  using short_circuit [of example_matcher example_mol 0 "Leaf AE_False" "Leaf (AE_Recursive 7)"
      example_rings 0 "Leaf BE_False" "Leaf BE_Ring"]
    short_circuit [of example_matcher example_mol 0 "Leaf AE_True" "Leaf (AE_Recursive 7)"
      example_rings 0 "Leaf BE_True" "Leaf BE_Ring"]
  by (simp add: example_matcher_def recursive_index_ok_def)

text \<open>
  Claim C6. An implicit-hydrogen leaf with parameter -1 is true iff the atom has at least
  one implicit hydrogen, a ring-bond-count leaf with parameter -1 is true iff the atom has
  at least one ring bond, and with any other parameter both leaves test equality with the
  parameter.
\<close>

theorem unspecified_parameter_means_at_least_one:
  "match_atom M mol atom (Leaf (AE_ImplicitH (- 1))) = Inr (num_hydrogens mol atom \<ge> 1) \<and>
   match_atom M mol atom (Leaf (AE_RingConnectivity (- 1))) =
     Inr (numRingBonds (m_rings M) atom \<ge> 1) \<and>
   (v \<noteq> - 1 \<longrightarrow>
      match_atom M mol atom (Leaf (AE_ImplicitH v)) = Inr (num_hydrogens mol atom = v) \<and>
      match_atom M mol atom (Leaf (AE_RingConnectivity v)) =
        Inr (numRingBonds (m_rings M) atom = v))"
  by simp

theorem unspecified_parameter_witness:
  "match_atom example_matcher example_mol 0 (Leaf (AE_ImplicitH (- 1))) = Inr True \<and>
   match_atom example_matcher example_mol 1 (Leaf (AE_ImplicitH (- 1))) = Inr False \<and>
   match_atom example_matcher example_mol 0 (Leaf (AE_RingConnectivity (- 1))) = Inr True \<and>
   match_atom example_matcher example_mol 1 (Leaf (AE_RingConnectivity (- 1))) = Inr False \<and>
   (2::int) \<noteq> - 1 \<and>
   match_atom example_matcher example_mol 0 (Leaf (AE_ImplicitH 2)) = Inr True \<and>
   match_atom example_matcher example_mol 0 (Leaf (AE_RingConnectivity 2)) = Inr True"
  using unspecified_parameter_means_at_least_one [of example_matcher example_mol 0 2]
    unspecified_parameter_means_at_least_one [of example_matcher example_mol 1 2]
  by (simp add: example_matcher_def example_mol_def example_rings_def)

subsection \<open>Smarts::search\<close>

lemma search_fragments_stops:
  "i \<le> j \<Longrightarrow> j < length qs \<Longrightarrow> mapping_set ext j (qs ! j) = [] \<Longrightarrow>
   (\<forall>l. i \<le> l \<and> l < j \<longrightarrow> mapping_set ext l (qs ! l) \<noteq> []) \<Longrightarrow>
   search_fragments ext qs i (n, ms, calls) = (None, calls @ [i..<Suc j])"
proof (induction "j - i" arbitrary: i n ms calls)
  case 0
  then have "i = j" by simp
  with 0 show ?case by (simp add: isomorphism_search_all_def)
next
  case (Suc d)
  then have lt: "i < j" and ne: "mapping_set ext i (qs ! i) \<noteq> []" by auto
  have "search_fragments ext qs (i + 1)
          (n + num_atoms ext (qs ! i), ms[i := ms ! i @ mapping_set ext i (qs ! i)], calls @ [i])
        = (None, (calls @ [i]) @ [i + 1..<Suc j])"
    using Suc lt by (intro Suc.hyps(1)) auto
  moreover have "[i..<Suc j] = i # [i + 1..<Suc j]"
    using lt by (simp add: upt_conv_Cons)
  ultimately show ?case
    using lt Suc.prems ne by (simp add: isomorphism_search_all_def)
qed

text \<open>
  Claim C4. For a query of more than one fragment, if the Mapping Set of some fragment
  \<open>k\<close> is empty, \<^verbatim>\<open>Smarts::search\<close> returns false at the first fragment \<open>j \<le> k\<close> whose
  Mapping Set is empty: the isomorphism search has been invoked on the fragments
  \<open>0..j\<close> only, the combiner is not entered (the result does not depend on the collector's
  \<open>add\<close> nor on the translation table) and the caller's collector is returned as it was.
\<close>

theorem empty_fragment_fails_immediately:
  assumes "1 < length (m_query S)" and "k < length (m_query S)"
    and "mapping_set ext k (m_query S ! k) = []"
  shows "\<exists>j\<le>k. mapping_set ext j (m_query S ! j) = [] \<and>
           Smarts_search ext add S mapping = Inr (False, mapping, [0..<Suc j])"
proof -
  define j where "j = (LEAST l. mapping_set ext l (m_query S ! l) = [])"
  have j: "mapping_set ext j (m_query S ! j) = []"
    unfolding j_def using assms(3) by (rule LeastI)
  have jk: "j \<le> k" unfolding j_def using assms(3) by (rule Least_le)
  have first: "\<forall>l. 0 \<le> l \<and> l < j \<longrightarrow> mapping_set ext l (m_query S ! l) \<noteq> []"
    unfolding j_def using not_less_Least by blast
  have "search_fragments ext (m_query S) 0 (0, replicate (length (m_query S)) [], [])
          = (None, [] @ [0..<Suc j])"
    using jk assms(2) j first by (intro search_fragments_stops) auto
  then have "Smarts_search ext add S mapping = Inr (False, mapping, [0..<Suc j])"
    using assms(1) by (auto simp: Smarts_search_def)
  with j jk show ?thesis by blast
qed

theorem empty_fragment_fails_immediately_witness:
  "1 < length (m_query example_smarts) \<and> 2 < length (m_query example_smarts) \<and>
   mapping_set example_ext 2 (m_query example_smarts ! 2) = [] \<and>
   (\<exists>j\<le>2. mapping_set example_ext j (m_query example_smarts ! j) = [] \<and>
      Smarts_search example_ext add_mapping_list example_smarts [[7, 8, 9]]
        = Inr (False, [[7, 8, 9]], [0..<Suc j]))"
proof -
  have h1: "1 < length (m_query example_smarts)" by (simp add: example_smarts_def)
  have h2: "2 < length (m_query example_smarts)" by (simp add: example_smarts_def)
  have h3: "mapping_set example_ext 2 (m_query example_smarts ! 2) = []"
    by (simp add: example_ext_def)
  show ?thesis
    using h1 h2 h3 empty_fragment_fails_immediately [OF h1 h2 h3, of add_mapping_list "[[7, 8, 9]]"]
    by simp
qed

text \<open>
  Claim C10. On a Smarts object whose compiled query is empty, \<^verbatim>\<open>Smarts::search\<close>
  returns false, the isomorphism search is not invoked (the list of searched fragments is
  empty) and the caller's collector is returned as it was.
\<close>

theorem empty_query_returns_false:
  "m_query S = [] \<Longrightarrow> Smarts_search ext add S mapping = Inr (False, mapping, [])"
  by (simp add: Smarts_search_def)

theorem empty_query_returns_false_witness:
  "m_query empty_smarts = [] \<and>
   Smarts_search example_ext add_mapping_list empty_smarts [[7, 8, 9]] = Inr (False, [[7, 8, 9]], [])"
proof -
  have h: "m_query empty_smarts = []" by (simp add: empty_smarts_def)
  show ?thesis
    using h empty_query_returns_false [OF h, of example_ext add_mapping_list "[[7, 8, 9]]"]
    by simp
qed


subsection \<open>Inverted fingerprint index\<close>

lemma fold_err_Inl:
  "fold (\<lambda>i st. case st of Inl e \<Rightarrow> Inl e | Inr s \<Rightarrow> f i s) xs (Inl e) = Inl e"
  by (induction xs) auto

lemma for_loop_0: "for_loop 0 body s = Inr s"
  by (simp add: for_loop_def)

lemma for_loop_Suc:
  "for_loop (Suc n) body s = (case for_loop n body s of Inl e \<Rightarrow> Inl e | Inr s' \<Rightarrow> body n s')"
  by (simp add: for_loop_def)

lemma for_loop_cong_below:
  "(\<And>i s. i < n \<Longrightarrow> body1 i s = body2 i s) \<Longrightarrow> for_loop n body1 s = for_loop n body2 s"
  by (induction n) (auto simp: for_loop_0 for_loop_Suc split: sum.splits)

lemma bitvec_get_bit_at:
  "bitvec_get k v = (if k < BitsPerWord * length v then Inr (bit_at v k) else Inl out_of_bounds)"
  by (auto simp: bitvec_get_def vec_get_def bit_at_def BitsPerWord_def)

lemma bit_set_word:
  "m < 64 \<Longrightarrow> bit ((w::Word) OR push_bit m 1) n = (bit w n \<or> n = m)"
  by (auto simp: bit_simps)

lemma bitvec_set_bit_at:
  assumes "k < BitsPerWord * length v"
  shows "\<exists>v'. bitvec_set k v = Inr v' \<and> length v' = length v \<and>
           (\<forall>j. bit_at v' j = (j = k \<or> bit_at v j))"
proof -
  let ?i = "k div 64"
  let ?v' = "v[?i := (v ! ?i) OR push_bit (k mod 64) 1]"
  have i: "?i < length v" using assms by (simp add: BitsPerWord_def) 
  have "bitvec_set k v = Inr ?v'"
    using i by (simp add: bitvec_set_def vec_get_def vec_set_def BitsPerWord_def)
  moreover have "bit_at ?v' j = (j = k \<or> bit_at v j)" for j
  proof (cases "j div 64 = ?i")
    case True
    have "(j mod 64 = k mod 64) = (j = k)"
      using True by (metis div_mult_mod_eq)
    then show ?thesis
      using True i assms bit_set_word [of "k mod 64" "v ! (k div 64)" "j mod 64"]
      by (auto simp: bit_at_def BitsPerWord_def simp del: push_bit_of_1)
  next
    case False
    then show ?thesis by (auto simp: bit_at_def BitsPerWord_def)
  qed
  ultimately show ?thesis by simp
qed

lemma unat_bit_index:
  fixes wpf c :: "32 word"
  assumes "i * unat wpf * 64 + unat c < 2 ^ 32"
  shows "unat (of_nat i * wpf * 64 + c) = i * unat wpf * 64 + unat c"
proof -
  have "unat (of_nat i * wpf * 64 + c) = (i * unat wpf * 64 + unat c) mod 2 ^ 32"
    by (simp add: unat_word_ariths unat_of_nat mod_simps)
  then show ?thesis using assms by simp
qed

lemma unat_row_index:
  fixes wpf :: "32 word"
  assumes "i * unat wpf + j < 2 ^ 32"
  shows "unat (of_nat i * wpf + of_nat j) = i * unat wpf + j"
proof -
  have "unat (of_nat i * wpf + of_nat j) = (i * unat wpf + j) mod 2 ^ 32"
    by (simp add: unat_word_ariths unat_of_nat mod_simps)
  then show ?thesis using assms by simp
qed

lemma unat_row_offset:
  fixes wpf :: "32 word"
  assumes "i * unat wpf < 2 ^ 32"
  shows "unat (of_nat i * wpf) = i * unat wpf"
  using unat_row_index [of i wpf 0] assms by simp

lemma unat_alloc_size:
  fixes wpf bpf :: "32 word"
  assumes "unat wpf * unat bpf < 2 ^ 32"
  shows "unat (wpf * bpf) = unat wpf * unat bpf"
  using assms by (simp add: unat_word_ariths)

lemma write_loop:
  assumes c: "unat c < 64 * unat (words_per_fpbit h)"
    and rows: "m * unat (words_per_fpbit h) * 64 \<le> 64 * length data"
    and small: "64 * length data < 2 ^ 32"
    and fp: "m \<le> 64 * length fp"
  shows "\<exists>data'. for_loop m (write_bit h c fp) data = Inr data' \<and> length data' = length data \<and>
           (\<forall>k. bit_at data' k =
              (bit_at data k \<or> (\<exists>i<m. bit_at fp i \<and> k = i * unat (words_per_fpbit h) * 64 + unat c)))"
  using rows fp
proof (induction m)
  case 0
  show ?case by (simp add: for_loop_0)
next
  case (Suc m)
  let ?W = "unat (words_per_fpbit h)"
  from Suc obtain d where d: "for_loop m (write_bit h c fp) data = Inr d"
    and len: "length d = length data"
    and bits: "\<And>k. bit_at d k = (bit_at data k \<or> (\<exists>i<m. bit_at fp i \<and> k = i * ?W * 64 + unat c))"
    by force
  have get: "bitvec_get m fp = Inr (bit_at fp m)"
    using Suc.prems by (simp add: bitvec_get_bit_at BitsPerWord_def)
  show ?case
  proof (cases "bit_at fp m")
    case False
    then have "for_loop (Suc m) (write_bit h c fp) data = Inr d"
      by (simp add: for_loop_Suc d write_bit_def get)
    moreover have "(\<exists>i<Suc m. bit_at fp i \<and> k = i * ?W * 64 + unat c) =
                   (\<exists>i<m. bit_at fp i \<and> k = i * ?W * 64 + unat c)" for k
      using False less_Suc_eq by auto
    ultimately show ?thesis using len bits by simp
  next
    case True
    have bound: "m * ?W * 64 + unat c < 64 * length data"
    proof -
      have "m * ?W * 64 + unat c < Suc m * ?W * 64" using c by simp
      with Suc.prems show ?thesis by linarith
    qed
    then have idx: "unat (of_nat m * words_per_fpbit h * 64 + c) = m * ?W * 64 + unat c"
      using small by (intro unat_bit_index) linarith
    obtain d' where d': "bitvec_set (m * ?W * 64 + unat c) d = Inr d'"
      and len': "length d' = length d"
      and bits': "\<And>j. bit_at d' j = (j = m * ?W * 64 + unat c \<or> bit_at d j)"
      using bitvec_set_bit_at [of "m * ?W * 64 + unat c" d] bound len
      by (auto simp: BitsPerWord_def)
    have "for_loop (Suc m) (write_bit h c fp) data = Inr d'"
      using True by (simp add: for_loop_Suc d write_bit_def get idx d')
    moreover have "bit_at d' k =
        (bit_at data k \<or> (\<exists>i<Suc m. bit_at fp i \<and> k = i * ?W * 64 + unat c))" for k
      using True by (auto simp: bits' bits less_Suc_eq)
    ultimately show ?thesis using len len' by simp
  qed
qed

lemma ex_less_Suc_shift: "(\<exists>j<Suc n. P j) = (P 0 \<or> (\<exists>j<n. P (Suc j)))"
  by (auto simp: less_Suc_eq_0_disj)

lemma write_all_Nil: "write_all w [] = Inr w"
  by (simp add: write_all_def)

lemma write_all_Cons:
  "write_all w (f # fs) =
     (case InvertedFingerprintOutputFile_write w f of Inl e \<Rightarrow> Inl e | Inr w' \<Rightarrow> write_all w' fs)"
  by (cases "InvertedFingerprintOutputFile_write w f") (simp_all add: write_all_def fold_err_Inl)

lemma write_one:
  assumes len: "length (w_data w) = unat (words_per_fpbit (w_header w)) * unat (bits_per_fingerprint (w_header w))"
    and small: "64 * length (w_data w) < 2 ^ 32"
    and cur: "unat (w_current w) < 64 * unat (words_per_fpbit (w_header w))"
    and fp: "unat (bits_per_fingerprint (w_header w)) \<le> 64 * length f"
  shows "\<exists>d. InvertedFingerprintOutputFile_write w f = Inr (w \<lparr> w_data := d, w_current := w_current w + 1 \<rparr>) \<and>
           length d = length (w_data w) \<and>
           (\<forall>k. bit_at d k = (bit_at (w_data w) k \<or>
              (\<exists>i<unat (bits_per_fingerprint (w_header w)). bit_at f i \<and>
                 k = i * unat (words_per_fpbit (w_header w)) * 64 + unat (w_current w))))"
proof -
  have "unat (bits_per_fingerprint (w_header w)) * unat (words_per_fpbit (w_header w)) * 64
          \<le> 64 * length (w_data w)"
    using len by simp
  from write_loop [OF cur this small fp]
  show ?thesis by (auto simp: InvertedFingerprintOutputFile_write_def)
qed

lemma write_all_bits:
  assumes "length (w_data w) = unat (words_per_fpbit (w_header w)) * unat (bits_per_fingerprint (w_header w))"
    and "64 * length (w_data w) < 2 ^ 32"
    and "unat (w_current w) + length fps \<le> 64 * unat (words_per_fpbit (w_header w))"
    and "unat (w_current w) + length fps < 2 ^ 32"
    and "\<forall>f\<in>set fps. unat (bits_per_fingerprint (w_header w)) \<le> 64 * length f"
  shows "\<exists>w'. write_all w fps = Inr w' \<and> w_header w' = w_header w \<and>
           length (w_data w') = length (w_data w) \<and>
           (\<forall>k. bit_at (w_data w') k = (bit_at (w_data w) k \<or>
              (\<exists>j<length fps. \<exists>i<unat (bits_per_fingerprint (w_header w)). bit_at (fps ! j) i \<and>
                 k = i * unat (words_per_fpbit (w_header w)) * 64 + (unat (w_current w) + j))))"
  using assms
proof (induction fps arbitrary: w)
  case Nil
  show ?case by (simp add: write_all_Nil)
next
  case (Cons f fs)
  let ?W = "unat (words_per_fpbit (w_header w))"
  let ?B = "unat (bits_per_fingerprint (w_header w))"
  have cur: "unat (w_current w) < 64 * ?W" using Cons.prems(3) by simp
  have fp: "?B \<le> 64 * length f" using Cons.prems(5) by simp
  from write_one [OF Cons.prems(1) Cons.prems(2) cur fp]
  obtain d where w1: "InvertedFingerprintOutputFile_write w f = Inr (w \<lparr> w_data := d, w_current := w_current w + 1 \<rparr>)"
    and lend: "length d = length (w_data w)"
    and bitsd: "\<And>k. bit_at d k = (bit_at (w_data w) k \<or>
              (\<exists>i<?B. bit_at f i \<and> k = i * ?W * 64 + unat (w_current w)))"
    by blast
  let ?w1 = "w \<lparr> w_data := d, w_current := w_current w + 1 \<rparr>"
  have cur1: "unat (w_current (w \<lparr> w_data := d, w_current := w_current w + 1 \<rparr>)) = Suc (unat (w_current w))"
  proof -
    have "unat (w_current w + 1) = (unat (w_current w) + 1) mod 2 ^ 32"
      by (simp add: unat_word_ariths)
    then show ?thesis using Cons.prems(4) by simp
  qed
  have sel: "w_header ?w1 = w_header w" "w_data ?w1 = d" "w_current ?w1 = w_current w + 1"
    by simp_all
  have p1: "length (w_data ?w1) = unat (words_per_fpbit (w_header ?w1)) * unat (bits_per_fingerprint (w_header ?w1))"
    unfolding sel using Cons.prems(1) lend by simp
  have p2: "64 * length (w_data ?w1) < 2 ^ 32"
    unfolding sel using Cons.prems(2) lend by simp
  have p3: "unat (w_current ?w1) + length fs \<le> 64 * unat (words_per_fpbit (w_header ?w1))"
    unfolding cur1 unfolding sel using Cons.prems(3) by simp
  have p4: "unat (w_current ?w1) + length fs < 2 ^ 32"
    unfolding cur1 using Cons.prems(4) by simp
  have p5: "\<forall>f\<in>set fs. unat (bits_per_fingerprint (w_header ?w1)) \<le> 64 * length f"
    unfolding sel using Cons.prems(5) by simp
  from Cons.IH [OF p1 p2 p3 p4 p5]
  obtain w' where w': "write_all ?w1 fs = Inr w'" and hdr0: "w_header w' = w_header ?w1"
    and len0: "length (w_data w') = length (w_data ?w1)"
    and bits0: "\<And>k. bit_at (w_data w') k = (bit_at (w_data ?w1) k \<or>
              (\<exists>j<length fs. \<exists>i<unat (bits_per_fingerprint (w_header ?w1)). bit_at (fs ! j) i \<and>
                 k = i * unat (words_per_fpbit (w_header ?w1)) * 64 + (unat (w_current ?w1) + j)))"
    by blast
  have hdr: "w_header w' = w_header w" using hdr0 unfolding sel .
  have len': "length (w_data w') = length (w_data w)" using len0 lend unfolding sel by simp
  have bits': "bit_at (w_data w') k = (bit_at d k \<or>
              (\<exists>j<length fs. \<exists>i<?B. bit_at (fs ! j) i \<and>
                 k = i * ?W * 64 + (Suc (unat (w_current w)) + j)))" for k
    using bits0 [of k] unfolding cur1 unfolding sel .
  have "bit_at (w_data w') k = (bit_at (w_data w) k \<or>
              (\<exists>j<length (f # fs). \<exists>i<?B. bit_at ((f # fs) ! j) i \<and>
                 k = i * ?W * 64 + (unat (w_current w) + j)))" (is "?L = (?D \<or> ?R)") for k
  proof -
    have "?R = ((\<exists>i<?B. bit_at f i \<and> k = i * ?W * 64 + unat (w_current w)) \<or>
           (\<exists>j<length fs. \<exists>i<?B. bit_at (fs ! j) i \<and> k = i * ?W * 64 + (Suc (unat (w_current w)) + j)))"
      by (simp add: ex_less_Suc_shift)
    then show ?thesis unfolding bits' [of k] bitsd [of k] by blast
  qed
  then show ?case using w1 w' hdr len' by (simp add: write_all_Cons)
qed

lemma assign_result_nth:
  assumes "\<forall>j<n. row_at j = Inr (r j)" and "n \<le> length res"
  shows "\<exists>res'. assign_result n row_at res = Inr res' \<and> length res' = length res \<and>
           (\<forall>j<length res. res' ! j = (if j < n then r j else res ! j))"
  using assms
proof (induction n)
  case 0
  show ?case by (simp add: assign_result_def for_loop_0)
next
  case (Suc n)
  then obtain x where x: "assign_result n row_at res = Inr x" "length x = length res"
    and nth: "\<And>j. j < length res \<Longrightarrow> x ! j = (if j < n then r j else res ! j)"
    by force
  have row: "row_at n = Inr (r n)" using Suc.prems by simp
  have "assign_result (Suc n) row_at res = Inr (x[n := r n])"
    using x Suc.prems(2) by (simp add: assign_result_def for_loop_Suc row vec_set_def)
  moreover have "(x[n := r n]) ! j = (if j < Suc n then r j else res ! j)" if "j < length res" for j
    using that x(2) nth [of j] by (auto simp: nth_list_update less_Suc_eq)
  ultimately show ?case using x(2) by simp
qed

lemma intersect_result_nth:
  assumes "\<forall>j<n. row_at j = Inr (r j)" and "n \<le> length res"
  shows "\<exists>res'. intersect_result n row_at res = Inr res' \<and> length res' = length res \<and>
           (\<forall>j<length res. res' ! j = (if j < n then res ! j AND r j else res ! j))"
  using assms
proof (induction n)
  case 0
  show ?case by (simp add: intersect_result_def for_loop_0)
next
  case (Suc n)
  then obtain x where x: "intersect_result n row_at res = Inr x" "length x = length res"
    and nth: "\<And>j. j < length res \<Longrightarrow> x ! j = (if j < n then res ! j AND r j else res ! j)"
    by force
  have row: "row_at n = Inr (r n)" using Suc.prems by simp
  have xn: "x ! n = res ! n" using nth [of n] Suc.prems(2) by simp
  have "intersect_result (Suc n) row_at res = Inr (x[n := res ! n AND r n])"
    using x Suc.prems(2) by (simp add: intersect_result_def for_loop_Suc row vec_set_def vec_get_def xn)
  moreover have "(x[n := res ! n AND r n]) ! j = (if j < Suc n then res ! j AND r j else res ! j)"
    if "j < length res" for j
    using that x(2) nth [of j] by (auto simp: nth_list_update less_Suc_eq)
  ultimately show ?case using x(2) by simp
qed

lemma bit_at_row:
  assumes "k < 64 * W" and "(b + 1) * W \<le> length data"
  shows "bit_at data (b * W * 64 + k) = bit (data ! (b * W + k div 64)) (k mod 64)"
proof -
  have "(b * W * 64 + k) div 64 = b * W + k div 64" by simp
  moreover have "(b * W * 64 + k) mod 64 = k mod 64" by simp
  moreover have "b * W * 64 + k < 64 * length data"
  proof -
    have "b * W * 64 + k < (b + 1) * W * 64" using assms(1) by simp
    also have "\<dots> \<le> length data * 64" using assms(2) by (rule mult_le_mono1)
    finally show ?thesis by simp
  qed
  ultimately show ?thesis by (simp add: bit_at_def BitsPerWord_def)
qed

text \<open>One row fetched into a result buffer of exactly W words.\<close>

lemma fetch_row:
  assumes rows: "\<forall>j<W. row_at j = Inr (data ! (b * W + j))"
    and res: "length res = W" and data: "(b + 1) * W \<le> length data"
  shows "\<exists>res'. (if first then assign_result W row_at res else intersect_result W row_at res) = Inr res' \<and>
           length res' = W \<and>
           (\<forall>k. bit_at res' k = (k < 64 * W \<and> (first \<or> bit_at res k) \<and> bit_at data (b * W * 64 + k)))"
proof (cases first)
  case True
  from assign_result_nth [OF rows, of res] res
  obtain x where x: "assign_result W row_at res = Inr x" "length x = W"
    and nth: "\<And>j. j < W \<Longrightarrow> x ! j = data ! (b * W + j)" by auto
  have "bit_at x k = (k < 64 * W \<and> bit_at data (b * W * 64 + k))" for k
  proof (cases "k < 64 * W")
    case False
    then show ?thesis using x(2) by (simp add: bit_at_def BitsPerWord_def)
  next
    case lt: True
    then have "k div 64 < W" by simp
    then show ?thesis
      using lt x(2) nth [of "k div 64"] bit_at_row [OF lt data]
      by (simp add: bit_at_def BitsPerWord_def)
  qed
  then show ?thesis using True x by simp
next
  case False
  from intersect_result_nth [OF rows, of res] res
  obtain x where x: "intersect_result W row_at res = Inr x" "length x = W"
    and nth: "\<And>j. j < W \<Longrightarrow> x ! j = res ! j AND data ! (b * W + j)" by auto
  have "bit_at x k = (k < 64 * W \<and> bit_at res k \<and> bit_at data (b * W * 64 + k))" for k
  proof (cases "k < 64 * W")
    case False
    then show ?thesis using x(2) by (simp add: bit_at_def BitsPerWord_def)
  next
    case lt: True
    then have "k div 64 < W" by simp
    then show ?thesis
      using lt x(2) res nth [of "k div 64"] bit_at_row [OF lt data]
      by (auto simp: bit_at_def BitsPerWord_def bit_and_iff)
  qed
  then show ?thesis using False x by simp
qed

lemma row_bound:
  assumes "b < B" and "j < (W::nat)"
  shows "b * W + j < W * B" and "(b + 1) * W \<le> W * B"
proof -
  have "(b + 1) * W \<le> B * W" using assms(1) by (intro mult_le_mono1) simp
  then show le: "(b + 1) * W \<le> W * B" by (simp add: mult.commute)
  have "b * W + j < (b + 1) * W" using assms(2) by simp
  with le show "b * W + j < W * B" by linarith
qed

lemma cached_step:
  assumes hdr: "unat (words_per_fpbit (c_header c)) = W"
    and data: "length (c_data c) = W * B" and small: "W * B < 2 ^ 32" and b: "b < B"
    and res: "length res = W" and q: "b < 64 * length q"
  shows "\<exists>res'. cached_search_bit c q b (first, res)
             = Inr (if bit_at q b then (False, res') else (first, res)) \<and>
           length res' = W \<and>
           (\<forall>k. bit_at res' k =
              (k < 64 * W \<and> (first \<or> bit_at res k) \<and> bit_at (c_data c) (b * W * 64 + k)))"
proof -
  let ?row = "\<lambda>j. vec_get (c_data c) (unat (of_nat b * words_per_fpbit (c_header c) + of_nat j))"
  have rows: "\<forall>j<W. ?row j = Inr (c_data c ! (b * W + j))"
  proof (intro allI impI)
    fix j assume j: "j < W"
    have lt: "b * W + j < W * B" using b j by (rule row_bound)
    then have "b * unat (words_per_fpbit (c_header c)) + j < 2 ^ 32" using small hdr by simp
    then have "unat (of_nat b * words_per_fpbit (c_header c) + of_nat j) = b * W + j"
      using unat_row_index [of b "words_per_fpbit (c_header c)" j] hdr by simp
    then show "?row j = Inr (c_data c ! (b * W + j))"
      using lt data by (simp add: vec_get_def)
  qed
  have le: "(b + 1) * W \<le> length (c_data c)"
    using row_bound(2) [OF b, of 0 W] data by (cases "W = 0") simp_all
  from fetch_row [OF rows res le, of first]
  obtain res' where f: "(if first then assign_result W ?row res else intersect_result W ?row res) = Inr res'"
    and l: "length res' = W"
    and bits: "\<forall>k. bit_at res' k =
              (k < 64 * W \<and> (first \<or> bit_at res k) \<and> bit_at (c_data c) (b * W * 64 + k))"
    by blast
  have get: "bitvec_get b q = Inr (bit_at q b)"
    using q by (simp add: bitvec_get_bit_at BitsPerWord_def)
  have "cached_search_bit c q b (first, res) = Inr (if bit_at q b then (False, res') else (first, res))"
    using f by (cases first) (simp_all add: cached_search_bit_def get hdr Let_def)
  with l bits show ?thesis by blast
qed

lemma cached_loop:
  assumes hdr: "unat (words_per_fpbit (c_header c)) = W"
    and data: "length (c_data c) = W * B" and small: "W * B < 2 ^ 32"
    and res: "length res0 = W" and q: "B \<le> 64 * length q" and m: "m \<le> B"
  shows "\<exists>res. for_loop m (cached_search_bit c q) (True, res0) = Inr (\<forall>b<m. \<not> bit_at q b, res) \<and>
           length res = W \<and>
           (if \<forall>b<m. \<not> bit_at q b then res = res0
            else (\<forall>k. bit_at res k =
                 (k < 64 * W \<and> (\<forall>b<m. bit_at q b \<longrightarrow> bit_at (c_data c) (b * W * 64 + k)))))"
  using m
proof (induction m)
  case 0
  show ?case using res by (simp add: for_loop_0)
next
  case (Suc m)
  let ?first = "\<forall>b<m. \<not> bit_at q b"
  from Suc obtain res where loop: "for_loop m (cached_search_bit c q) (True, res0) = Inr (?first, res)"
    and len: "length res = W"
    and inv: "if ?first then res = res0
            else (\<forall>k. bit_at res k =
                 (k < 64 * W \<and> (\<forall>b<m. bit_at q b \<longrightarrow> bit_at (c_data c) (b * W * 64 + k))))"
    by force
  have mB: "m < B" and mq: "m < 64 * length q" using Suc.prems q by simp_all
  from cached_step [OF hdr data small mB len mq, of ?first]
  obtain res' where step: "cached_search_bit c q m (?first, res)
             = Inr (if bit_at q m then (False, res') else (?first, res))"
    and len': "length res' = W"
    and bits': "\<And>k. bit_at res' k =
              (k < 64 * W \<and> (?first \<or> bit_at res k) \<and> bit_at (c_data c) (m * W * 64 + k))"
    by blast
  have run: "for_loop (Suc m) (cached_search_bit c q) (True, res0)
           = Inr (if bit_at q m then (False, res') else (?first, res))"
    by (simp add: for_loop_Suc loop step)
  show ?case
  proof (cases "bit_at q m")
    case False
    have eq1: "(\<forall>b<Suc m. \<not> bit_at q b) = ?first"
      using False by (auto simp: less_Suc_eq)
    have eq2: "(\<forall>b<Suc m. bit_at q b \<longrightarrow> P b) = (\<forall>b<m. bit_at q b \<longrightarrow> P b)" for P
      using False by (auto simp: less_Suc_eq)
    have "for_loop (Suc m) (cached_search_bit c q) (True, res0) = Inr (?first, res)"
      using run False by simp
    then show ?thesis unfolding eq1 eq2 using len inv by blast
  next
    case True
    have ne: "(\<forall>b<Suc m. \<not> bit_at q b) = False" using True by blast
    have bits: "bit_at res' k =
        (k < 64 * W \<and> (\<forall>b<Suc m. bit_at q b \<longrightarrow> bit_at (c_data c) (b * W * 64 + k)))" for k
    proof (cases ?first)
      case none: True
      then show ?thesis using bits' [of k] True by (auto simp: less_Suc_eq)
    next
      case some: False
      then have r: "bit_at res k =
                 (k < 64 * W \<and> (\<forall>b<m. bit_at q b \<longrightarrow> bit_at (c_data c) (b * W * 64 + k)))"
        using inv by simp
      show ?thesis unfolding bits' [of k] r using some True by (auto simp: less_Suc_eq)
    qed
    have "for_loop (Suc m) (cached_search_bit c q) (True, res0) = Inr (False, res')"
      using run True by simp
    then show ?thesis unfolding ne using len' bits by auto
  qed
qed

lemma assign_result_cong:
  "(\<And>j. j < n \<Longrightarrow> row1 j = row2 j) \<Longrightarrow> assign_result n row1 res = assign_result n row2 res"
  unfolding assign_result_def by (rule for_loop_cong_below) simp

lemma intersect_result_cong:
  "(\<And>j. j < n \<Longrightarrow> row1 j = row2 j) \<Longrightarrow> intersect_result n row1 res = intersect_result n row2 res"
  unfolding intersect_result_def by (rule for_loop_cong_below) simp

lemma ondemand_step:
  assumes hdr: "unat (words_per_fpbit (r_header r)) = W"
    and same: "c_header c = r_header r" "c_data c = ifs_words (r_ifs r)"
    and ok: "\<not> ifs_failed (r_ifs r)" and buf: "length (r_data r) = W"
    and data: "length (c_data c) = W * B" and small: "W * B < 2 ^ 32" and b: "b < B"
    and q: "b < 64 * length q"
    and cached: "cached_search_bit c q b (first, res) = Inr (f', res')"
  shows "\<exists>r'. ondemand_search_bit q b (r, first, res) = Inr (r', f', res') \<and>
           r_header r' = r_header r \<and> ifs_words (r_ifs r') = ifs_words (r_ifs r) \<and>
           \<not> ifs_failed (r_ifs r') \<and> length (r_data r') = W"
proof (cases "bit_at q b")
  case False
  have get: "bitvec_get b q = Inr False"
    using q False by (simp add: bitvec_get_bit_at BitsPerWord_def)
  have "f' = first \<and> res' = res" using cached by (simp add: cached_search_bit_def get)
  moreover have "ondemand_search_bit q b (r, first, res) = Inr (r, first, res)"
    by (simp add: ondemand_search_bit_def get)
  ultimately show ?thesis using ok buf by simp
next
  case True
  have get: "bitvec_get b q = Inr True"
    using q True by (simp add: bitvec_get_bit_at BitsPerWord_def)
  let ?data = "ifs_words (r_ifs r)"
  let ?got = "take W (drop (b * W) ?data)"
  have le: "(b + 1) * W \<le> length ?data"
    using row_bound(2) [OF b, of 0 W] data same by (cases "W = 0") simp_all
  then have lgot: "length ?got = W" by simp
  have off: "unat (of_nat b * words_per_fpbit (r_header r)) = b * W"
  proof -
    have "b * W \<le> (b + 1) * W" by simp
    with le data same small have "b * unat (words_per_fpbit (r_header r)) < 2 ^ 32"
      using hdr by simp
    then show ?thesis using unat_row_offset [of b "words_per_fpbit (r_header r)"] hdr by simp
  qed
  let ?ifs' = "(r_ifs r) \<lparr> ifs_pos := b * W + W, ifs_failed := False \<rparr>"
  have rd: "read_words (seekg (r_ifs r) (b * W)) W (r_data r) = Inr (?ifs', ?got)"
    using ok buf lgot by (simp add: read_words_def seekg_def Let_def)
  let ?r' = "r \<lparr> r_ifs := ?ifs', r_data := ?got \<rparr>"
  let ?crow = "\<lambda>j. vec_get (c_data c) (unat (of_nat b * words_per_fpbit (c_header c) + of_nat j))"
  have rows: "vec_get ?got j = ?crow j" if j: "j < W" for j
  proof -
    have lt: "b * W + j < W * B" using b j by (rule row_bound)
    then have "b * unat (words_per_fpbit (r_header r)) + j < 2 ^ 32" using small hdr by simp
    then have "unat (of_nat b * words_per_fpbit (r_header r) + of_nat j) = b * W + j"
      using unat_row_index [of b "words_per_fpbit (r_header r)" j] hdr by simp
    moreover have "?got ! j = ?data ! (b * W + j)"
      using j le by simp
    ultimately show ?thesis using lt data same j lgot by (simp add: vec_get_def)
  qed
  have a: "assign_result W (vec_get ?got) res = assign_result W ?crow res"
    by (rule assign_result_cong) (rule rows)
  have i: "intersect_result W (vec_get ?got) res = intersect_result W ?crow res"
    by (rule intersect_result_cong) (rule rows)
  have c': "(if first then assign_result W ?crow res else intersect_result W ?crow res) = Inr res'"
    and f': "f' = False"
    using cached by (auto simp: cached_search_bit_def get hdr same Let_def split: if_splits sum.splits)
  have "ondemand_search_bit q b (r, first, res) = Inr (?r', False, res')"
    using c' by (cases first) (simp_all add: ondemand_search_bit_def get hdr off rd a i Let_def)
  then show ?thesis using f' lgot by simp
qed

lemma ondemand_loop:
  assumes hdr: "unat (words_per_fpbit (r_header r)) = W"
    and same: "c_header c = r_header r" "c_data c = ifs_words (r_ifs r)"
    and ok: "\<not> ifs_failed (r_ifs r)" and buf: "length (r_data r) = W"
    and data: "length (c_data c) = W * B" and small: "W * B < 2 ^ 32"
    and res: "length res0 = W" and q: "B \<le> 64 * length q" and m: "m \<le> B"
    and cached: "for_loop m (cached_search_bit c q) (True, res0) = Inr (f, res)"
  shows "\<exists>r'. for_loop m (ondemand_search_bit q) (r, True, res0) = Inr (r', f, res) \<and>
           r_header r' = r_header r \<and> ifs_words (r_ifs r') = ifs_words (r_ifs r) \<and>
           \<not> ifs_failed (r_ifs r') \<and> length (r_data r') = W"
  using m cached
proof (induction m arbitrary: f res)
  case 0
  then show ?case using ok buf by (simp add: for_loop_0)
next
  case (Suc m)
  have hc: "unat (words_per_fpbit (c_header c)) = W" using hdr same by simp
  have mB: "m \<le> B" "m < B" "m < 64 * length q" using Suc.prems(1) q by simp_all
  from cached_loop [OF hc data small res q mB(1)]
  obtain fm resm where cm: "for_loop m (cached_search_bit c q) (True, res0) = Inr (fm, resm)"
    and lm: "length resm = W" by blast
  from Suc.IH [OF mB(1) cm]
  obtain rm where om: "for_loop m (ondemand_search_bit q) (r, True, res0) = Inr (rm, fm, resm)"
    and inv: "r_header rm = r_header r" "ifs_words (r_ifs rm) = ifs_words (r_ifs r)"
      "\<not> ifs_failed (r_ifs rm)" "length (r_data rm) = W" by blast
  have step: "cached_search_bit c q m (fm, resm) = Inr (f, res)"
    using Suc.prems(2) by (simp add: for_loop_Suc cm)
  have "\<exists>r'. ondemand_search_bit q m (rm, fm, resm) = Inr (r', f, res) \<and>
           r_header r' = r_header rm \<and> ifs_words (r_ifs r') = ifs_words (r_ifs rm) \<and>
           \<not> ifs_failed (r_ifs r') \<and> length (r_data r') = W"
    using hdr same inv data small mB step by (intro ondemand_step [where B = B and c = c]) simp_all
  then show ?case using inv by (auto simp: for_loop_Suc om)
qed

lemma length_new_Words: "length (new_Words fresh n) = n"
  by (simp add: new_Words_def)

lemma bit_at_new_Words_zero: "\<forall>k. fresh k = 0 \<Longrightarrow> \<not> bit_at (new_Words fresh n) k"
  by (simp add: bit_at_def new_Words_def BitsPerWord_def)

lemma setup_header_sel:
  "bits_per_fingerprint (setup_header b n) = b"
  "magic_number (setup_header b n) = get_magic_number"
  by (simp_all add: setup_header_def)

lemma read_header_complete: "read_header (header_fields h) h0 = (h, False)"
  by (simp add: read_header_def header_fields_def header_of_fields_def)

lemma build_ok:
  fixes fingerprints :: "Word list list" and bitsPerFingerprint :: "32 word"
  defines "h \<equiv> setup_header bitsPerFingerprint (of_nat (length fingerprints))"
  defines "W \<equiv> unat (words_per_fpbit h)" and "B \<equiv> unat bitsPerFingerprint"
  assumes room: "length fingerprints \<le> 64 * W"
    and small: "64 * (W * B) < 2 ^ 32" and n: "length fingerprints < 2 ^ 32"
    and zero: "\<forall>k. fresh k = 0"
    and fps: "\<forall>f\<in>set fingerprints. B \<le> 64 * length f"
  shows "\<exists>data. build_inverted_index filename fresh bitsPerFingerprint fingerprints
             = Inr \<lparr> file_header = header_fields h, file_data = data \<rparr> \<and>
           length data = W * B \<and>
           (\<forall>k. bit_at data k =
              (\<exists>j<length fingerprints. \<exists>i<B. bit_at (fingerprints ! j) i \<and> k = i * W * 64 + j))"
proof -
  have "W * B \<le> 64 * (W * B)" by simp
  with small have wb: "W * B < 2 ^ 32" by linarith
  have alloc: "unat (words_per_fpbit h * bits_per_fingerprint h) = W * B"
    using wb unfolding W_def B_def h_def setup_header_sel
    by (rule unat_alloc_size)
  let ?w0 = "\<lparr> w_header = h, w_current = 0, w_data = new_Words fresh (W * B) \<rparr>"
  have init: "InvertedFingerprintOutputFile_init filename True fresh bitsPerFingerprint
                (of_nat (length fingerprints)) = Inr ?w0"
    using alloc by (simp add: InvertedFingerprintOutputFile_init_def h_def Let_def)
  have sel: "w_header ?w0 = h" "w_current ?w0 = 0" "w_data ?w0 = new_Words fresh (W * B)"
    by simp_all
  have p1: "length (w_data ?w0) = unat (words_per_fpbit (w_header ?w0)) * unat (bits_per_fingerprint (w_header ?w0))"
    unfolding sel by (simp add: length_new_Words W_def B_def h_def setup_header_sel)
  have p2: "64 * length (w_data ?w0) < 2 ^ 32"
    unfolding sel using small by (simp add: length_new_Words)
  have p3: "unat (w_current ?w0) + length fingerprints \<le> 64 * unat (words_per_fpbit (w_header ?w0))"
    unfolding sel using room by (simp add: W_def)
  have p4: "unat (w_current ?w0) + length fingerprints < 2 ^ 32"
    unfolding sel using n by simp
  have p5: "\<forall>f\<in>set fingerprints. unat (bits_per_fingerprint (w_header ?w0)) \<le> 64 * length f"
    unfolding sel using fps by (simp add: B_def h_def setup_header_sel)
  from write_all_bits [OF p1 p2 p3 p4 p5]
  obtain w' where w': "write_all ?w0 fingerprints = Inr w'" and hdr: "w_header w' = w_header ?w0"
    and len: "length (w_data w') = length (w_data ?w0)"
    and bits: "\<And>k. bit_at (w_data w') k = (bit_at (w_data ?w0) k \<or>
              (\<exists>j<length fingerprints. \<exists>i<unat (bits_per_fingerprint (w_header ?w0)).
                 bit_at (fingerprints ! j) i \<and>
                 k = i * unat (words_per_fpbit (w_header ?w0)) * 64 + (unat (w_current ?w0) + j)))"
    by blast
  have "build_inverted_index filename fresh bitsPerFingerprint fingerprints
          = Inr \<lparr> file_header = header_fields h, file_data = w_data w' \<rparr>"
    using hdr by (simp add: build_inverted_index_def init w' InvertedFingerprintOutputFile_close_def)
  moreover have "length (w_data w') = W * B"
    using len unfolding sel by (simp add: length_new_Words)
  moreover have "bit_at (w_data w') k =
      (\<exists>j<length fingerprints. \<exists>i<B. bit_at (fingerprints ! j) i \<and> k = i * W * 64 + j)" for k
    using bits [of k] bit_at_new_Words_zero [OF zero, of "W * B" k]
    unfolding sel by (simp add: W_def B_def h_def setup_header_sel)
  ultimately show ?thesis by blast
qed

lemma row_decompose:
  assumes "i < 64 * (W::nat)" and "j < 64 * W"
  shows "(b * W * 64 + i = b' * W * 64 + j) = (b = b' \<and> i = j)"
proof
  assume eq: "b * W * 64 + i = b' * W * 64 + j"
  have W: "0 < 64 * W" using assms by simp
  have "(b * (64 * W) + i) div (64 * W) = b" using assms W by simp
  moreover have "(b' * (64 * W) + j) div (64 * W) = b'" using assms W by simp
  moreover have "b * W * 64 = b * (64 * W)" "b' * W * 64 = b' * (64 * W)" by simp_all
  then have "b * (64 * W) + i = b' * (64 * W) + j" using eq by simp
  ultimately have "b = b'" by metis
  with eq show "b = b' \<and> i = j" by simp
qed simp

lemma fingerprint_subset_bit_at:
  assumes "B \<le> 64 * length q" and "B \<le> 64 * length f"
  shows "fingerprint_subset B q f = (\<forall>b<B. bit_at q b \<longrightarrow> bit_at f b)"
  using assms by (auto simp: fingerprint_subset_def list_all_iff bitvec_get_bit_at BitsPerWord_def)

text \<open>
  Claim C1, amended. Let an inverted index be built by the writer from the fingerprints
  \<open>f_0 .. f_(n-1)\<close>, where the bitmap length \<open>W\<close> recorded in the header has room for
  all of them (\<open>n \<le> 64 * W\<close>), every bit index of the payload stays below \<open>2^31\<close>, the
  writer's buffer was zero when allocated, and the fingerprint arrays and the query array
  hold at least \<open>bitsPerFingerprint\<close> bits. Then for every query with at least one bit
  set below \<open>bitsPerFingerprint\<close> and a result buffer of \<open>W\<close> words, both the cached and
  the on-demand reader open the file, their searches succeed with the same result, and
  bit \<open>i\<close> of the result is set iff \<open>i < n\<close> and every bit position set in the query is
  set in \<open>f_i\<close>.
\<close>

theorem inverted_index_search_exact:
  fixes fingerprints :: "Word list list" and bitsPerFingerprint :: "32 word"
  defines "h \<equiv> setup_header bitsPerFingerprint (of_nat (length fingerprints))"
  defines "W \<equiv> unat (words_per_fpbit h)" and "B \<equiv> unat bitsPerFingerprint"
  assumes room: "length fingerprints \<le> 64 * W"
    and small: "64 * (W * B) < 2 ^ 31"
    and zero: "\<forall>k. fresh k = 0"
    and fps: "\<forall>f\<in>set fingerprints. B \<le> 64 * length f"
    and q: "B \<le> 64 * length q"
    and nonempty: "\<exists>b<B. bitvec_get b q = Inr True"
    and result: "length result = W"
  shows "\<exists>file c r r' res.
           build_inverted_index filename fresh bitsPerFingerprint fingerprints = Inr file \<and>
           InvertedFingerprintFileCached_init (fs(filename \<mapsto> file)) garbage1 fresh1 filename = Inr c \<and>
           InvertedFingerprintFileCached_search c q result = Inr res \<and>
           InvertedFingerprintFile_init (fs(filename \<mapsto> file)) garbage2 fresh2 filename = Inr r \<and>
           InvertedFingerprintFile_search r q result = Inr (r', res) \<and>
           length res = W \<and>
           (\<forall>i<64 * W. bitvec_get i res =
              Inr (i < length fingerprints \<and> fingerprint_subset B q (fingerprints ! i)))"
proof -
  obtain b0 where b0: "b0 < B" "bit_at q b0"
    using nonempty q by (auto simp: bitvec_get_bit_at BitsPerWord_def split: if_splits)
  have Bpos: "1 \<le> B" using b0 by simp
  have small32: "64 * (W * B) < 2 ^ 32" using small by simp
  have "W * 1 \<le> W * B" using Bpos by (rule mult_le_mono2)
  then have "64 * W \<le> 64 * (W * B)" by simp
  with room small32 have n: "length fingerprints < 2 ^ 32" by linarith
  have "W * B \<le> 64 * (W * B)" by simp
  with small32 have wb: "W * B < 2 ^ 32" by linarith
  from build_ok [of fingerprints bitsPerFingerprint fresh filename, folded h_def, folded W_def B_def,
      OF room small32 n zero fps]
  obtain data where build: "build_inverted_index filename fresh bitsPerFingerprint fingerprints
             = Inr \<lparr> file_header = header_fields h, file_data = data \<rparr>"
    and len: "length data = W * B"
    and bits: "\<And>k. bit_at data k =
              (\<exists>j<length fingerprints. \<exists>i<B. bit_at (fingerprints ! j) i \<and> k = i * W * 64 + j)"
    by blast
  let ?file = "\<lparr> file_header = header_fields h, file_data = data \<rparr>"
  have alloc: "unat (words_per_fpbit h * bits_per_fingerprint h) = W * B"
    using wb unfolding W_def B_def h_def setup_header_sel by (rule unat_alloc_size)
  have hB: "unat (bits_per_fingerprint h) = B" by (simp add: B_def h_def setup_header_sel)
  have magic: "magic_number h = get_magic_number" by (simp add: h_def setup_header_sel)
  let ?c = "\<lparr> c_header = h, c_data = data \<rparr>"
  have cinit: "InvertedFingerprintFileCached_init (fs(filename \<mapsto> ?file)) garbage1 fresh1 filename = Inr ?c"
    using len
    by (simp add: InvertedFingerprintFileCached_init_def read_header_complete magic alloc Let_def
        length_new_Words)
  have csel: "c_header ?c = h" "c_data ?c = data" by simp_all
  have c1: "unat (words_per_fpbit (c_header ?c)) = W" unfolding csel by (simp add: W_def)
  have c2: "length (c_data ?c) = W * B" unfolding csel by (rule len)
  from cached_loop [OF c1 c2 wb result q order_refl]
  obtain res where cloop: "for_loop B (cached_search_bit ?c q) (True, result)
         = Inr (\<forall>b<B. \<not> bit_at q b, res)"
    and lres: "length res = W"
    and inv: "if \<forall>b<B. \<not> bit_at q b then res = result
            else (\<forall>k. bit_at res k =
                 (k < 64 * W \<and> (\<forall>b<B. bit_at q b \<longrightarrow> bit_at (c_data ?c) (b * W * 64 + k))))"
    by blast
  have csearch: "InvertedFingerprintFileCached_search ?c q result = Inr res"
    by (simp add: InvertedFingerprintFileCached_search_def hB cloop)
  let ?r = "\<lparr> r_header = h, r_ifs = \<lparr> ifs_words = data, ifs_pos = 0, ifs_failed = False \<rparr>,
               r_data = new_Words fresh2 W \<rparr>"
  have rinit: "InvertedFingerprintFile_init (fs(filename \<mapsto> ?file)) garbage2 fresh2 filename = Inr ?r"
    by (simp add: InvertedFingerprintFile_init_def read_header_complete magic W_def Let_def)
  have rsel: "r_header ?r = h" "ifs_words (r_ifs ?r) = data" "ifs_failed (r_ifs ?r) = False"
    "r_data ?r = new_Words fresh2 W" by simp_all
  have r1: "unat (words_per_fpbit (r_header ?r)) = W" unfolding rsel by (simp add: W_def)
  have r2: "c_header ?c = r_header ?r" "c_data ?c = ifs_words (r_ifs ?r)" by simp_all
  have r3: "\<not> ifs_failed (r_ifs ?r)" by simp
  have r4: "length (r_data ?r) = W" unfolding rsel by (rule length_new_Words)
  from ondemand_loop [OF r1 r2 r3 r4 c2 wb result q order_refl cloop]
  obtain r' where rloop: "for_loop B (ondemand_search_bit q) (?r, True, result)
         = Inr (r', \<forall>b<B. \<not> bit_at q b, res)"
    by blast
  have rsearch: "InvertedFingerprintFile_search ?r q result = Inr (r', res)"
    unfolding InvertedFingerprintFile_search_def rsel hB rloop by simp
  have some: "\<not> (\<forall>b<B. \<not> bit_at q b)" using b0 by blast
  have rbits: "bit_at res k = (k < 64 * W \<and> (\<forall>b<B. bit_at q b \<longrightarrow> bit_at data (b * W * 64 + k)))" for k
    using inv some unfolding csel by simp
  have final: "bitvec_get i res =
        Inr (i < length fingerprints \<and> fingerprint_subset B q (fingerprints ! i))"
    if i: "i < 64 * W" for i
  proof -
    have get: "bitvec_get i res = Inr (bit_at res i)"
      using i lres by (simp add: bitvec_get_bit_at BitsPerWord_def)
    have cell: "bit_at data (b * W * 64 + i) = (i < length fingerprints \<and> bit_at (fingerprints ! i) b)"
      if b: "b < B" for b
    proof -
      have "(\<exists>j<length fingerprints. \<exists>i'<B. bit_at (fingerprints ! j) i' \<and> b * W * 64 + i = i' * W * 64 + j)
          = (i < length fingerprints \<and> bit_at (fingerprints ! i) b)" (is "?L = ?R")
      proof
        assume ?L
        then obtain j i' where j: "j < length fingerprints" and i': "i' < B"
          and bit: "bit_at (fingerprints ! j) i'" and eq: "b * W * 64 + i = i' * W * 64 + j"
          by blast
        have "j < 64 * W" using j room by simp
        from row_decompose [OF i this, of b i'] eq have "b = i'" "i = j" by simp_all
        with j bit show ?R by simp
      next
        assume ?R
        then show ?L using b by blast
      qed
      then show ?thesis by (simp add: bits)
    qed
    have "bit_at res i = (i < length fingerprints \<and> fingerprint_subset B q (fingerprints ! i))"
    proof (cases "i < length fingerprints")
      case True
      then have "B \<le> 64 * length (fingerprints ! i)" using fps by simp
      from fingerprint_subset_bit_at [OF q this]
      show ?thesis using True i cell by (auto simp: rbits)
    next
      case False
      then show ?thesis using i cell [OF b0(1)] b0 by (auto simp: rbits)
    qed
    with get show ?thesis by simp
  qed
  show ?thesis
    using build cinit csearch rinit rsearch lres final by blast
qed

theorem inverted_index_search_exact_witness:
  "\<exists>file c r r' res.
     build_inverted_index ''index.hel'' zero_memory 8 padded_fingerprints = Inr file \<and>
     InvertedFingerprintFileCached_init (padded_fs(''index.hel'' \<mapsto> file)) garbage_header zero_memory
       ''index.hel'' = Inr c \<and>
     InvertedFingerprintFileCached_search c doc_query prior_result = Inr res \<and>
     InvertedFingerprintFile_init (padded_fs(''index.hel'' \<mapsto> file)) garbage_header zero_memory
       ''index.hel'' = Inr r \<and>
     InvertedFingerprintFile_search r doc_query prior_result = Inr (r', res) \<and>
     length res = 1 \<and>
     (\<forall>i<64. bitvec_get i res =
        Inr (i < 32 \<and> fingerprint_subset 8 doc_query (padded_fingerprints ! i)))"
proof -
  have n: "length padded_fingerprints = 32"
    by (simp add: padded_fingerprints_def doc_fingerprints_def)
  have W: "unat (words_per_fpbit (setup_header 8 (of_nat (length padded_fingerprints)))) = 1"
    unfolding n by (simp add: setup_header_def)
  have B: "unat (8 :: 32 word) = 8" by simp
  have h1: "length padded_fingerprints
      \<le> 64 * unat (words_per_fpbit (setup_header 8 (of_nat (length padded_fingerprints))))"
    unfolding W by (simp add: n)
  have h2: "64 * (unat (words_per_fpbit (setup_header 8 (of_nat (length padded_fingerprints))))
      * unat (8 :: 32 word)) < 2 ^ 31"
    unfolding W by simp
  have h3: "\<forall>k. zero_memory k = 0" by (simp add: zero_memory_def)
  have h4: "\<forall>f\<in>set padded_fingerprints. unat (8 :: 32 word) \<le> 64 * length f"
    by (auto simp: padded_fingerprints_def doc_fingerprints_def)
  have h5: "unat (8 :: 32 word) \<le> 64 * length doc_query" by (simp add: doc_query_def)
  have "bitvec_get 4 doc_query = Inr True" by code_simp
  then have h6: "\<exists>b<unat (8 :: 32 word). bitvec_get b doc_query = Inr True"
    by (intro exI [of _ 4]) simp
  have h7: "length prior_result
      = unat (words_per_fpbit (setup_header 8 (of_nat (length padded_fingerprints))))"
    unfolding W by (simp add: prior_result_def)
  have W32: "unat (words_per_fpbit (setup_header 8 32)) = 1"
    by (simp add: setup_header_def)
  from inverted_index_search_exact [OF h1 h2 h3 h4 h5 h6 h7, of "''index.hel''" padded_fs
      garbage_header zero_memory garbage_header zero_memory]
  show ?thesis by (simp add: n W32)
qed

text \<open>
  The claim as stated fails for a query without any bit: every stored fingerprint is a
  superset of it, yet the searches leave the result buffer as it was, here with bit 1 not
  set although fingerprint 1 qualifies.
\<close>

theorem superset_claim_fails_on_empty_query:
  "build_inverted_index ''index.hel'' zero_memory 8 padded_fingerprints = Inr padded_index \<and>
   InvertedFingerprintFileCached_init padded_fs garbage_header zero_memory ''index.hel''
     = Inr padded_cached \<and>
   InvertedFingerprintFileCached_search padded_cached empty_query prior_result = Inr prior_result \<and>
   InvertedFingerprintFile_init padded_fs garbage_header zero_memory ''index.hel''
     = Inr padded_ondemand \<and>
   InvertedFingerprintFile_search padded_ondemand empty_query prior_result
     = Inr (padded_ondemand, prior_result) \<and>
   fingerprint_subset 8 empty_query (padded_fingerprints ! 1) \<and>
   bitvec_get 1 prior_result = Inr False"
  by code_simp

text \<open>
  Claim C2, evaluated on the four fingerprints of the documentation's example. The
  constructor records \<open>(4 + 4 mod 64) div 64 = 0\<close> words per bit position where
  \<open>ceil(4 / 64) = 1\<close> is needed, the buffer it allocates has no word, and the first
  \<^verbatim>\<open>bitvec_set\<close> of \<^verbatim>\<open>write\<close> lands outside it.
\<close>

theorem words_per_fpbit_is_not_the_ceiling:
  "unat (words_per_fpbit (setup_header 8 4)) = 0 \<and>
   spec_words_per_fpbit 4 (unat (bits_per_word (setup_header 8 4))) = 1 \<and>
   build_inverted_index ''index.hel'' zero_memory 8 doc_fingerprints = Inl out_of_bounds"
  by code_simp

lemma for_loop_skip:
  "(\<And>i. i < n \<Longrightarrow> body i s = Inr s) \<Longrightarrow> for_loop n body s = Inr s"
  by (induction n) (simp_all add: for_loop_0 for_loop_Suc)

text \<open>
  Claim C9. For a query fingerprint with no bit set below the index's fingerprint width,
  both search variants return the caller's result buffer exactly as it was passed in,
  whatever it held and whatever its length (the on-demand reader does not even seek or
  read: it is returned unchanged too), although such a query is a subset of every
  fingerprint.
\<close>

theorem empty_query_leaves_result_untouched:
  assumes "\<forall>b<unat (bits_per_fingerprint (c_header c)). bitvec_get b q = Inr False"
    and "\<forall>b<unat (bits_per_fingerprint (r_header r)). bitvec_get b q = Inr False"
  shows "InvertedFingerprintFileCached_search c q result = Inr result \<and>
         InvertedFingerprintFile_search r q result = Inr (r, result) \<and>
         fingerprint_subset (unat (bits_per_fingerprint (c_header c))) q f"
proof -
  have "for_loop (unat (bits_per_fingerprint (c_header c))) (cached_search_bit c q) (True, result)
          = Inr (True, result)"
    using assms(1) by (intro for_loop_skip) (simp add: cached_search_bit_def)
  moreover have "for_loop (unat (bits_per_fingerprint (r_header r))) (ondemand_search_bit q)
          (r, True, result) = Inr (r, True, result)"
    using assms(2) by (intro for_loop_skip) (simp add: ondemand_search_bit_def)
  moreover have "fingerprint_subset (unat (bits_per_fingerprint (c_header c))) q f"
    using assms(1) by (simp add: fingerprint_subset_def list_all_iff)
  ultimately show ?thesis
    by (simp add: InvertedFingerprintFileCached_search_def InvertedFingerprintFile_search_def)
qed


theorem empty_query_leaves_result_untouched_witness:
  "InvertedFingerprintFileCached_search padded_cached empty_query prior_result = Inr prior_result \<and>
   InvertedFingerprintFile_search padded_ondemand empty_query prior_result
     = Inr (padded_ondemand, prior_result) \<and>
   fingerprint_subset (unat (bits_per_fingerprint (c_header padded_cached))) empty_query [0xD1]"
proof -
  have h1: "\<forall>b<unat (bits_per_fingerprint (c_header padded_cached)). bitvec_get b empty_query = Inr False"
    by (simp add: padded_cached_def padded_header_def empty_query_def bitvec_get_def vec_get_def
        BitsPerWord_def)
  have h2: "\<forall>b<unat (bits_per_fingerprint (r_header padded_ondemand)). bitvec_get b empty_query = Inr False"
    by (simp add: padded_ondemand_def padded_header_def empty_query_def bitvec_get_def vec_get_def
        BitsPerWord_def)
  show ?thesis
    using empty_query_leaves_result_untouched [OF h1 h2, of prior_result "[0xD1]"] .
qed


subsection \<open>Reader errors\<close>

text \<open>
  Claim C8, evaluated on an empty file. Both inverted-index readers reject a file with a
  complete header and another magic number ("picture.png is not an inverted fingerprint
  file."), and report a missing file differently. An empty file holds no magic number at
  all, yet both constructors return a reader for it: the header read fails unnoticed, the
  magic number that the header's constructor preset passes the check, and the reader's
  other header fields are whatever the memory held. The row-major loader reports the
  absent \<open>num_bits\<close> and \<open>num_fingerprints\<close> by name; for a stream that is not good its only
  error is "Could not open fingerprint file".
\<close>

theorem empty_file_passes_the_magic_check:
  "InvertedFingerprintFile_init foreign_fs garbage_header zero_memory ''picture.png''
     = Inl (runtime_error ''picture.png is not an inverted fingerprint file.'') \<and>
   InvertedFingerprintFileCached_init foreign_fs garbage_header zero_memory ''picture.png''
     = Inl (runtime_error ''picture.png is not an inverted fingerprint file.'') \<and>
   InvertedFingerprintFile_init foreign_fs garbage_header zero_memory ''missing.hel''
     = Inl (runtime_error ''Could not open missing.hel for reading.'') \<and>
   foreign_fs ''empty.hel'' = Some empty_file \<and>
   file_header empty_file = [] \<and>
   InvertedFingerprintFile_init foreign_fs garbage_header zero_memory ''empty.hel''
     = Inr \<lparr> r_header = garbage_header \<lparr> magic_number := get_magic_number \<rparr>,
             r_ifs = \<lparr> ifs_words = [], ifs_pos = 0, ifs_failed = True \<rparr>,
             r_data = [0, 0] \<rparr> \<and>
   InvertedFingerprintFileCached_init foreign_fs garbage_header zero_memory ''empty.hel''
     = Inr \<lparr> c_header = garbage_header \<lparr> magic_number := get_magic_number \<rparr>,
             c_data = [0, 0, 0, 0, 0, 0] \<rparr> \<and>
   load example_open example_reader zero_memory ''a.hel''
     = Inl (runtime_error (missing_attribute ''a.hel'' ''num_bits'')) \<and>
   load example_open example_reader zero_memory ''b.hel''
     = Inl (runtime_error (missing_attribute ''b.hel'' ''num_fingerprints'')) \<and>
   load example_open example_reader zero_memory ''c.hel''
     = Inl (runtime_error ''Could not open fingerprint file c.hel'')"
  by code_simp

subsection \<open>Row-major round trip\<close>

















subsection \<open>Fragment mapping combiner\<close>

lemma mappings_overlap_iff: "mappings_overlap m1 m2 = (set m1 \<inter> set m2 \<noteq> {})"
  by (induction m1) auto

lemma place_Nil: "place [] m g = g" "place amap [] g = g"
  by (simp_all add: place_def)

lemma place_Cons: "place (a # amap) (x # m) g = place amap m (g[unat a := x])"
  by (simp add: place_def)

lemma length_place: "length (place amap m g) = length g"
proof (induction amap arbitrary: m g)
  case Nil
  show ?case by (simp add: place_Nil)
next
  case (Cons a amap)
  show ?case by (cases m) (simp_all add: place_Nil place_Cons Cons.IH)
qed

lemma place_nth_out:
  "s \<notin> unat ` set amap \<Longrightarrow> place amap m g ! s = g ! s"
proof (induction amap arbitrary: m g)
  case Nil
  show ?case by (simp add: place_Nil)
next
  case (Cons a amap)
  show ?case
  proof (cases m)
    case Nil
    then show ?thesis by (simp add: place_Nil)
  next
    case (Cons x m')
    have "place amap m' (g[unat a := x]) ! s = (g[unat a := x]) ! s"
      using Cons.prems by (intro Cons.IH) simp
    then show ?thesis using Cons Cons.prems by (simp add: place_Cons)
  qed
qed

lemma place_nth_in:
  "distinct amap \<Longrightarrow> length m = length amap \<Longrightarrow> j < length amap \<Longrightarrow>
   \<forall>a\<in>set amap. unat a < length g \<Longrightarrow> place amap m g ! unat (amap ! j) = m ! j"
proof (induction amap arbitrary: m g j)
  case Nil
  then show ?case by simp
next
  case (Cons a amap)
  then obtain x m' where m: "m = x # m'" by (cases m) auto
  show ?case
  proof (cases j)
    case 0
    have "unat a \<notin> unat ` set amap"
    proof
      assume "unat a \<in> unat ` set amap"
      then obtain b where "b \<in> set amap" "unat a = unat b" by blast
      then have "a \<in> set amap" using word_unat_eq_iff [of a b] by simp
      then show False using Cons.prems(1) by simp
    qed
    then have "place amap m' (g[unat a := x]) ! unat a = (g[unat a := x]) ! unat a"
      by (rule place_nth_out)
    then show ?thesis using 0 m Cons.prems(4) by (simp add: place_Cons)
  next
    case (Suc j')
    have "place amap m' (g[unat a := x]) ! unat (amap ! j') = m' ! j'"
      using Cons.prems m Suc by (intro Cons.IH) simp_all
    then show ?thesis using Suc m by (simp add: place_Cons)
  qed
qed

lemma place_snoc:
  "length amap = length m \<Longrightarrow> place (amap @ [a]) (m @ [x]) g = (place amap m g)[unat a := x]"
  by (simp add: place_def)

lemma translate_loop:
  assumes f: "f < length atomMaps" and len: "length next = length (atomMaps ! f)"
    and range: "\<forall>a\<in>set (atomMaps ! f). unat a < length cur" and k: "k \<le> length next"
  shows "fold (\<lambda>j st. case st of Inl e \<Rightarrow> Inl e | Inr m \<Rightarrow> translate_step atomMaps f next j m)
           [0..<k] (Inr cur) = Inr (place (take k (atomMaps ! f)) (take k next) cur)"
  using k
proof (induction k)
  case 0
  show ?case by (simp add: place_Nil)
next
  case (Suc k)
  let ?amap = "atomMaps ! f"
  let ?g = "place (take k ?amap) (take k next) cur"
  have k: "k < length next" "k < length ?amap" using Suc.prems len by simp_all
  then have "unat (?amap ! k) < length ?g" using range by (simp add: length_place)
  then have step: "translate_step atomMaps f next k ?g = Inr (?g[unat (?amap ! k) := next ! k])"
    using f k by (simp add: translate_step_def vec_get_def vec_set_def)
  have "place (take (Suc k) ?amap) (take (Suc k) next) cur = ?g[unat (?amap ! k) := next ! k]"
    using k by (simp add: take_Suc_conv_app_nth place_snoc)
  then show ?case using Suc step by simp
qed

lemma translate_place:
  assumes "f < length atomMaps" and "length next = length (atomMaps ! f)"
    and "\<forall>a\<in>set (atomMaps ! f). unat a < length cur"
  shows "translate atomMaps f next cur = Inr (place (atomMaps ! f) next cur)"
  using translate_loop [OF assms order_refl] assms(2) by (simp add: translate_def)

lemma set_place:
  assumes d: "distinct amap" and len: "length m = length amap"
    and range: "\<forall>a\<in>set amap. unat a < length g"
    and free: "\<forall>a\<in>set amap. g ! unat a = null_sentinel"
    and full: "null_sentinel \<notin> set m"
  shows "set (place amap m g) - {null_sentinel} = (set g - {null_sentinel}) \<union> set m"
proof (intro set_eqI iffI)
  fix x assume "x \<in> set (place amap m g) - {null_sentinel}"
  then obtain s where s: "s < length g" "place amap m g ! s = x" and x: "x \<noteq> null_sentinel"
    by (auto simp: in_set_conv_nth length_place)
  show "x \<in> (set g - {null_sentinel}) \<union> set m"
  proof (cases "s \<in> unat ` set amap")
    case True
    then obtain j where j: "j < length amap" "s = unat (amap ! j)"
      by (auto simp: in_set_conv_nth)
    then have "x = m ! j" using s place_nth_in [OF d len j(1) range] by simp
    then show ?thesis using j len by simp
  next
    case False
    then have "x = g ! s" using s place_nth_out [of s amap m g] by simp
    then show ?thesis using s x by simp
  qed
next
  fix x assume "x \<in> (set g - {null_sentinel}) \<union> set m"
  then show "x \<in> set (place amap m g) - {null_sentinel}"
  proof
    assume "x \<in> set g - {null_sentinel}"
    then obtain s where s: "s < length g" "g ! s = x" and x: "x \<noteq> null_sentinel"
      by (auto simp: in_set_conv_nth)
    then have "s \<notin> unat ` set amap" using free by auto
    then have "place amap m g ! s = x" using s place_nth_out [of s amap m g] by simp
    then show ?thesis using s x by (auto simp: in_set_conv_nth length_place)
  next
    assume "x \<in> set m"
    then obtain j where j: "j < length amap" "m ! j = x" using len by (auto simp: in_set_conv_nth)
    then have "place amap m g ! unat (amap ! j) = x"
      using place_nth_in [OF d len j(1) range] by simp
    moreover have "unat (amap ! j) < length g" using j range by simp
    moreover have "x \<noteq> null_sentinel" using \<open>x \<in> set m\<close> full by auto
    ultimately show ?thesis by (auto simp: in_set_conv_nth length_place)
  qed
qed

lemma fold_emit:
  assumes "\<And>x out mt. x \<in> set xs \<Longrightarrow>
       body x (Inr (out, mt)) = Inr (fold (\<lambda>g a. add a g) (emit x) out, mt \<or> emit x \<noteq> [])"
  shows "fold body xs (Inr (out, mt))
           = Inr (fold (\<lambda>g a. add a g) (concat (map emit xs)) out, mt \<or> concat (map emit xs) \<noteq> [])"
  using assms
proof (induction xs arbitrary: out mt)
  case Nil
  show ?case by simp
next
  case (Cons x xs)
  have "fold body (x # xs) (Inr (out, mt))
      = fold body xs (Inr (fold (\<lambda>g a. add a g) (emit x) out, mt \<or> emit x \<noteq> []))"
    using Cons.prems [of x out mt] by simp
  also have "\<dots> = Inr (fold (\<lambda>g a. add a g) (concat (map emit xs))
        (fold (\<lambda>g a. add a g) (emit x) out), (mt \<or> emit x \<noteq> []) \<or> concat (map emit xs) \<noteq> [])"
    using Cons.prems by (intro Cons.IH) simp
  finally show ?case by auto
qed

lemma compatible_Nil: "compatible used [] = True"
  by (simp add: compatible_def targets_disjoint_def)

lemma compatible_Cons:
  "compatible used (x # rest) = (set x \<inter> used = {} \<and> compatible (used \<union> set x) rest)"
  by (auto simp: compatible_def targets_disjoint_def)

lemma fill_Nil: "fill amaps [] g = g" "fill [] choice g = g"
  by (simp_all add: fill_def)

lemma fill_Cons: "fill (amap # amaps) (x # rest) g = fill amaps rest (place amap x g)"
  by (simp add: fill_def)

lemma per_candidate:
  "map (\<lambda>rest. fill (amap # amaps) rest cur) (filter (compatible used) (map ((#) x) choices))
     = (if set x \<inter> used = {}
        then map (\<lambda>rest. fill amaps rest (place amap x cur)) (filter (compatible (used \<union> set x)) choices)
        else [])"
  by (induction choices) (auto simp: compatible_Cons fill_Cons)

lemma all_candidates:
  "map (\<lambda>rest. fill (amap # amaps) rest cur)
     (filter (compatible used) (product_lists (cands # mappings)))
   = concat (map (\<lambda>x. if set x \<inter> used = {}
        then map (\<lambda>rest. fill amaps rest (place amap x cur))
               (filter (compatible (used \<union> set x)) (product_lists mappings))
        else []) cands)"
proof -
  have "map (\<lambda>rest. fill (amap # amaps) rest cur)
     (filter (compatible used) (product_lists (cands # mappings)))
     = concat (map (\<lambda>x. map (\<lambda>rest. fill (amap # amaps) rest cur)
         (filter (compatible used) (map ((#) x) (product_lists mappings)))) cands)"
    by (simp add: filter_concat map_concat comp_def)
  then show ?thesis by (simp only: per_candidate)
qed

lemma unat_image_disjoint:
  fixes A B :: "'a::len word set"
  assumes "A \<inter> B = {}"
  shows "unat ` A \<inter> unat ` B = {}"
proof (rule ccontr)
  assume "unat ` A \<inter> unat ` B \<noteq> {}"
  then obtain a b where ab: "a \<in> A" "b \<in> B" "unat a = unat b" by auto
  then have "a = b" by (simp add: word_unat_eq_iff)
  with ab assms show False by auto
qed

lemma slots_of_Cons: "slots_of (amap # amaps) = unat ` set amap \<union> slots_of amaps"
  by (auto simp: slots_of_def)

lemma slots_of_Nil: "slots_of [] = {}"
  by (simp add: slots_of_def)

text \<open>Placing one candidate of the current fragment keeps the invariant of the partial mapping.\<close>

lemma place_invariant:
  assumes d: "distinct (concat (amap # tail))"
    and len: "length cur = n" and lx: "length x = length amap" and full: "null_sentinel \<notin> set x"
    and inv: "\<forall>s<n. (cur ! s = null_sentinel) = (s \<in> slots_of (amap # tail))"
    and inrange: "slots_of (amap # tail) \<subseteq> {0..<n}"
  shows "length (place amap x cur) = n"
    and "\<forall>s<n. (place amap x cur ! s = null_sentinel) = (s \<in> slots_of tail)"
    and "set (place amap x cur) - {null_sentinel} = (set cur - {null_sentinel}) \<union> set x"
proof -
  have da: "distinct amap" and disj: "set amap \<inter> set (concat tail) = {}"
    using d by auto
  have range: "\<forall>a\<in>set amap. unat a < length cur"
    using inrange len by (auto simp: slots_of_Cons)
  have free: "\<forall>a\<in>set amap. cur ! unat a = null_sentinel"
    using inv range len by (auto simp: slots_of_Cons)
  show "length (place amap x cur) = n" using len by (simp add: length_place)
  show "set (place amap x cur) - {null_sentinel} = (set cur - {null_sentinel}) \<union> set x"
    using da lx range free full by (rule set_place)
  have apart: "unat ` set amap \<inter> slots_of tail = {}"
    unfolding slots_of_def using disj by (rule unat_image_disjoint)
  show "\<forall>s<n. (place amap x cur ! s = null_sentinel) = (s \<in> slots_of tail)"
  proof (intro allI impI)
    fix s assume s: "s < n"
    show "(place amap x cur ! s = null_sentinel) = (s \<in> slots_of tail)"
    proof (cases "s \<in> unat ` set amap")
      case True
      then obtain j where j: "j < length amap" "s = unat (amap ! j)"
        by (auto simp: in_set_conv_nth)
      then have "place amap x cur ! s = x ! j"
        using place_nth_in [OF da lx j(1) range] by simp
      moreover have "x ! j \<in> set x" using j lx by simp
      ultimately have "place amap x cur ! s \<noteq> null_sentinel" using full by auto
      moreover have "s \<notin> slots_of tail" using True apart by auto
      ultimately show ?thesis by simp
    next
      case False
      then have "place amap x cur ! s = cur ! s" by (rule place_nth_out)
      then show ?thesis using inv s False by (simp add: slots_of_Cons)
    qed
  qed
qed

lemma enumerate_from:
  assumes N: "length atomMaps = length mappings"
    and f: "f < length mappings"
    and d: "distinct (concat (drop f atomMaps))"
    and Q: "list_all2 (\<lambda>amap cands. \<forall>m\<in>set cands. length m = length amap \<and> null_sentinel \<notin> set m)
              (drop f atomMaps) (drop f mappings)"
    and len: "length cur = n"
    and inv: "\<forall>s<n. (cur ! s = null_sentinel) = (s \<in> slots_of (drop f atomMaps))"
    and inrange: "slots_of (drop f atomMaps) \<subseteq> {0..<n}"
  shows "enumerate_mappings f mappings cur atomMaps add (out, mt)
           = Inr (fold (\<lambda>g a. add a g)
                    (map (\<lambda>rest. fill (drop f atomMaps) rest cur)
                       (filter (compatible (set cur - {null_sentinel})) (product_lists (drop f mappings))))
                    out,
                  mt \<or> filter (compatible (set cur - {null_sentinel})) (product_lists (drop f mappings)) \<noteq> [])"
  using f d Q len inv inrange
proof (induction "length mappings - f" arbitrary: f cur out mt)
  case 0
  then show ?case by simp
next
  case (Suc k)
  let ?amap = "atomMaps ! f" and ?cands = "mappings ! f"
  let ?tail = "drop (Suc f) atomMaps" and ?rest = "drop (Suc f) mappings"
  let ?used = "set cur - {null_sentinel}"
  have fa: "f < length atomMaps" using Suc.prems(1) N by simp
  have da: "drop f atomMaps = ?amap # ?tail" using fa by (simp add: Cons_nth_drop_Suc)
  have dm: "drop f mappings = ?cands # ?rest" using Suc.prems(1) by (simp add: Cons_nth_drop_Suc)
  have dist: "distinct (concat (?amap # ?tail))" using Suc.prems(2) da by simp
  have Qc: "\<forall>m\<in>set ?cands. length m = length ?amap \<and> null_sentinel \<notin> set m"
    and Qt: "list_all2 (\<lambda>amap cands. \<forall>m\<in>set cands. length m = length amap \<and> null_sentinel \<notin> set m)
               ?tail ?rest"
    using Suc.prems(3) unfolding da dm by simp_all
  have inv: "\<forall>s<n. (cur ! s = null_sentinel) = (s \<in> slots_of (?amap # ?tail))"
    using Suc.prems(5) da by simp
  have inrange: "slots_of (?amap # ?tail) \<subseteq> {0..<n}" using Suc.prems(6) da by simp
  have range: "\<forall>a\<in>set ?amap. unat a < length cur"
    using inrange Suc.prems(4) by (auto simp: slots_of_Cons)
  let ?emit = "\<lambda>x. if set x \<inter> ?used = {}
        then map (\<lambda>rest. fill ?tail rest (place ?amap x cur))
               (filter (compatible (?used \<union> set x)) (product_lists ?rest))
        else []"
  let ?body = "\<lambda>next st.
            case st of
              Inl e \<Rightarrow> Inl e
            | Inr (output, match) \<Rightarrow>
                if mappings_overlap cur next then Inr (output, match)
                else
                  (case translate atomMaps f next cur of
                     Inl e \<Rightarrow> Inl e
                   | Inr gmap \<Rightarrow>
                       if f + 1 < length mappings then
                         enumerate_mappings (f + 1) mappings gmap atomMaps add (output, match)
                       else if null_sentinel \<in> set gmap then Inl assertion_failed
                       else Inr (add output gmap, True))"
  have step: "?body x (Inr (o', m')) = Inr (fold (\<lambda>g a. add a g) (?emit x) o', m' \<or> ?emit x \<noteq> [])"
    if x: "x \<in> set ?cands" for x o' m'
  proof (cases "set x \<inter> ?used = {}")
    case False
    have "null_sentinel \<notin> set x" using Qc x by simp
    then have "set cur \<inter> set x \<noteq> {}" using False by auto
    then show ?thesis using False by (simp add: mappings_overlap_iff)
  next
    case True
    have lx: "length x = length ?amap" and full: "null_sentinel \<notin> set x" using Qc x by simp_all
    have "set cur \<inter> set x = {}" using True full by auto
    then have no: "\<not> mappings_overlap cur x" by (simp add: mappings_overlap_iff)
    let ?cur' = "place ?amap x cur"
    have tr: "translate atomMaps f x cur = Inr ?cur'"
      using fa lx range by (rule translate_place)
    note pi = place_invariant [OF dist Suc.prems(4) lx full inv inrange]
    show ?thesis
    proof (cases "f + 1 < length mappings")
      case more: True
      have k: "k = length mappings - Suc f" using Suc.hyps(2) by simp
      have d': "distinct (concat ?tail)" using dist by simp
      have r': "slots_of ?tail \<subseteq> {0..<n}" using inrange by (auto simp: slots_of_Cons)
      have "enumerate_mappings (Suc f) mappings ?cur' atomMaps add (o', m')
          = Inr (fold (\<lambda>g a. add a g)
                    (map (\<lambda>rest. fill ?tail rest ?cur')
                       (filter (compatible (set ?cur' - {null_sentinel})) (product_lists ?rest)))
                    o',
                  m' \<or> filter (compatible (set ?cur' - {null_sentinel})) (product_lists ?rest) \<noteq> [])"
        using more d' Qt pi(1) pi(2) r' by (intro Suc.hyps(1) [OF k]) simp_all
      then show ?thesis using True no tr more by (simp add: pi(3))
    next
      case last: False
      then have "?tail = []" "?rest = []" using N by simp_all
      moreover have "null_sentinel \<notin> set ?cur'"
      proof
        assume "null_sentinel \<in> set ?cur'"
        then obtain s where "s < n" "?cur' ! s = null_sentinel"
          using pi(1) by (auto simp: in_set_conv_nth)
        then show False using pi(2) \<open>?tail = []\<close> by (simp add: slots_of_Nil)
      qed
      ultimately show ?thesis
        using True no tr last by (simp add: compatible_Nil fill_Nil)
    qed
  qed
  have "enumerate_mappings f mappings cur atomMaps add (out, mt)
      = fold ?body ?cands (Inr (out, mt))"
    using Suc.prems(1) by (subst enumerate_mappings.simps) simp
  also have "\<dots> = Inr (fold (\<lambda>g a. add a g) (concat (map ?emit ?cands)) out,
                      mt \<or> concat (map ?emit ?cands) \<noteq> [])"
    by (rule fold_emit) (rule step)
  also have "concat (map ?emit ?cands)
      = map (\<lambda>rest. fill (drop f atomMaps) rest cur)
          (filter (compatible ?used) (product_lists (drop f mappings)))"
    unfolding da dm by (rule all_candidates [symmetric])
  finally show ?case by simp
qed

lemma length_fill: "length (fill amaps choice g) = length g"
proof (induction amaps arbitrary: choice g)
  case Nil
  show ?case by (simp add: fill_Nil)
next
  case (Cons amap amaps)
  show ?case by (cases choice) (simp_all add: fill_Nil fill_Cons Cons.IH length_place)
qed

lemma fill_nth_out: "s \<notin> slots_of amaps \<Longrightarrow> fill amaps choice g ! s = g ! s"
proof (induction amaps arbitrary: choice g)
  case Nil
  show ?case by (simp add: fill_Nil)
next
  case (Cons amap amaps)
  show ?case
  proof (cases choice)
    case Nil
    then show ?thesis by (simp add: fill_Nil)
  next
    case (Cons x rest)
    have "s \<notin> slots_of amaps" "s \<notin> unat ` set amap"
      using Cons.prems by (simp_all add: slots_of_Cons)
    then have "fill amaps rest (place amap x g) ! s = g ! s"
      using Cons.IH [of rest "place amap x g"] place_nth_out [of s amap x g] by simp
    then show ?thesis using Cons by (simp add: fill_Cons)
  qed
qed

lemma fill_nth_in:
  "list_all2 (\<lambda>amap m. length m = length amap) amaps choice \<Longrightarrow>
   distinct (concat amaps) \<Longrightarrow> slots_of amaps \<subseteq> {0..<length g} \<Longrightarrow>
   f < length amaps \<Longrightarrow> j < length (amaps ! f) \<Longrightarrow>
   fill amaps choice g ! unat (amaps ! f ! j) = choice ! f ! j"
proof (induction amaps choice arbitrary: g f rule: list_all2_induct)
  case Nil
  then show ?case by simp
next
  case (Cons amap amaps x rest)
  have da: "distinct amap" and disj: "set amap \<inter> set (concat amaps) = {}"
    and dt: "distinct (concat amaps)"
    using Cons.prems(1) by auto
  have range: "\<forall>a\<in>set amap. unat a < length g"
    using Cons.prems(2) by (auto simp: slots_of_Cons)
  have apart: "unat ` set amap \<inter> slots_of amaps = {}"
    unfolding slots_of_def using disj by (rule unat_image_disjoint)
  show ?case
  proof (cases f)
    case 0
    then have j: "j < length amap" using Cons.prems(4) by simp
    then have "unat (amap ! j) \<in> unat ` set amap" by simp
    then have "unat (amap ! j) \<notin> slots_of amaps" using apart by blast
    then have "fill amaps rest (place amap x g) ! unat (amap ! j) = place amap x g ! unat (amap ! j)"
      by (rule fill_nth_out)
    also have "\<dots> = x ! j" using da Cons.hyps(1) j range by (rule place_nth_in)
    finally show ?thesis using 0 by (simp add: fill_Cons)
  next
    case (Suc f')
    have "fill amaps rest (place amap x g) ! unat (amaps ! f' ! j) = rest ! f' ! j"
      using Cons.prems Suc dt by (intro Cons.IH) (auto simp: slots_of_Cons length_place)
    then show ?thesis using Suc by (simp add: fill_Cons)
  qed
qed

lemma targets_disjoint_nth:
  assumes "targets_disjoint choice" and "f < length choice" and "f' < length choice" and "f \<noteq> f'"
  shows "set (choice ! f) \<inter> set (choice ! f') = {}"
proof (cases "f < f'")
  case True
  then show ?thesis using assms by (simp add: targets_disjoint_def sorted_wrt_iff_nth_less)
next
  case False
  then have "f' < f" using assms(4) by simp
  then have "set (choice ! f') \<inter> set (choice ! f) = {}"
    using assms by (simp add: targets_disjoint_def sorted_wrt_iff_nth_less)
  then show ?thesis by blast
qed

text \<open>
  Claim C3, amended. For a multi-fragment query whose translation table names every global
  slot exactly once, and Mapping Sets of complete candidate mappings, the fragment combiner
  passes to the collector exactly the globally consistent combinations, in order: the
  global mappings of the choices of one candidate per fragment (fragments and candidates
  in their original order) whose target-atom sets are pairwise disjoint, and it returns
  whether there is one. No emitted global mapping assigns two query atoms of different
  fragments to the same target atom. This holds for every collector (\<open>add\<close> is arbitrary):
  the combiner has no early exit, a single-result collector receives every consistent
  combination too.
\<close>

theorem combiner_emits_consistent_combinations:
  assumes wf: "well_formed_fragments n atomMaps mappings"
  shows "enumerate_mappings 0 mappings (replicate n null_sentinel) atomMaps add (output, False)
           = Inr (fold (\<lambda>g out. add out g)
                    (map (global_mapping n atomMaps) (consistent_combinations mappings)) output,
                  consistent_combinations mappings \<noteq> []) \<and>
         (\<forall>choice\<in>set (consistent_combinations mappings).
            \<forall>f f' j j'. f < length mappings \<and> f' < length mappings \<and> f \<noteq> f' \<and>
              j < length (atomMaps ! f) \<and> j' < length (atomMaps ! f') \<longrightarrow>
              global_mapping n atomMaps choice ! unat (atomMaps ! f ! j)
                \<noteq> global_mapping n atomMaps choice ! unat (atomMaps ! f' ! j'))"
proof -
  have ne: "mappings \<noteq> []" and d: "distinct (concat atomMaps)"
    and cover: "unat ` set (concat atomMaps) = {0..<n}"
    and Q: "list_all2 (\<lambda>amap cands. \<forall>m\<in>set cands. length m = length amap \<and> null_sentinel \<notin> set m)
              atomMaps mappings"
    using wf by (simp_all add: well_formed_fragments_def)
  have N: "length atomMaps = length mappings" using Q by (rule list_all2_lengthD)
  have slots: "slots_of atomMaps = {0..<n}" using cover by (simp add: slots_of_def)
  have f0: "0 < length mappings" using ne by simp
  have compat: "compatible (set (replicate n null_sentinel) - {null_sentinel}) = targets_disjoint"
    by (auto simp: compatible_def fun_eq_iff)
  have "enumerate_mappings 0 mappings (replicate n null_sentinel) atomMaps add (output, False)
      = Inr (fold (\<lambda>g a. add a g)
                    (map (\<lambda>rest. fill (drop 0 atomMaps) rest (replicate n null_sentinel))
                       (filter (compatible (set (replicate n null_sentinel) - {null_sentinel}))
                          (product_lists (drop 0 mappings))))
                    output,
                  False \<or> filter (compatible (set (replicate n null_sentinel) - {null_sentinel}))
                          (product_lists (drop 0 mappings)) \<noteq> [])"
    using N f0 d Q slots by (intro enumerate_from [where n = n]) simp_all
  then have first: "enumerate_mappings 0 mappings (replicate n null_sentinel) atomMaps add (output, False)
           = Inr (fold (\<lambda>g out. add out g)
                    (map (global_mapping n atomMaps) (consistent_combinations mappings)) output,
                  consistent_combinations mappings \<noteq> [])"
    unfolding compat by (simp add: consistent_combinations_def global_mapping_def [abs_def])
  have second: "global_mapping n atomMaps choice ! unat (atomMaps ! f ! j)
                \<noteq> global_mapping n atomMaps choice ! unat (atomMaps ! f' ! j')"
    if c: "choice \<in> set (consistent_combinations mappings)"
      and f: "f < length mappings" "f' < length mappings" "f \<noteq> f'"
      and j: "j < length (atomMaps ! f)" "j' < length (atomMaps ! f')"
    for choice f f' j j'
  proof -
    have td: "targets_disjoint choice" and pl: "list_all2 (\<lambda>x ys. x \<in> set ys) choice mappings"
      using c by (simp_all add: consistent_combinations_def product_lists_set)
    have lc: "length choice = length mappings" using pl by (rule list_all2_lengthD)
    have shape: "list_all2 (\<lambda>amap m. length m = length amap) atomMaps choice"
    proof (rule list_all2_all_nthI)
      show "length atomMaps = length choice" using N lc by simp
    next
      fix i assume i: "i < length atomMaps"
      then have "choice ! i \<in> set (mappings ! i)"
        using pl N lc by (simp add: list_all2_conv_all_nth)
      moreover have "\<forall>m\<in>set (mappings ! i). length m = length (atomMaps ! i)"
        using Q i by (simp add: list_all2_conv_all_nth)
      ultimately show "length (choice ! i) = length (atomMaps ! i)" by simp
    qed
    have sl: "slots_of atomMaps \<subseteq> {0..<length (replicate n null_sentinel)}"
      using slots by simp
    have a: "global_mapping n atomMaps choice ! unat (atomMaps ! f ! j) = choice ! f ! j"
      unfolding global_mapping_def using shape d sl f(1) j(1) N by (intro fill_nth_in) simp_all
    have b: "global_mapping n atomMaps choice ! unat (atomMaps ! f' ! j') = choice ! f' ! j'"
      unfolding global_mapping_def using shape d sl f(2) j(2) N by (intro fill_nth_in) simp_all
    have "length (choice ! f) = length (atomMaps ! f)" "length (choice ! f') = length (atomMaps ! f')"
      using shape f N by (simp_all add: list_all2_conv_all_nth)
    then have "choice ! f ! j \<in> set (choice ! f)" "choice ! f' ! j' \<in> set (choice ! f')"
      using j by simp_all
    moreover have "set (choice ! f) \<inter> set (choice ! f') = {}"
      using td f lc by (intro targets_disjoint_nth) simp_all
    ultimately have "choice ! f ! j \<noteq> choice ! f' ! j'" by auto
    then show ?thesis using a b by simp
  qed
  from first second show ?thesis by blast
qed

theorem combiner_emits_consistent_combinations_witness:
  "enumerate_mappings 0 co_mappings (replicate 2 null_sentinel) two_atom_maps add_mapping_list ([], False)
     = Inr ([[0, 1]], True) \<and>
   consistent_combinations co_mappings = [[[0], [1]]] \<and>
   global_mapping 2 two_atom_maps [[0], [1]] ! unat (two_atom_maps ! 0 ! 0)
     \<noteq> global_mapping 2 two_atom_maps [[0], [1]] ! unat (two_atom_maps ! 1 ! 0)"
proof -
  have wf: "well_formed_fragments 2 two_atom_maps co_mappings" by code_simp
  have cc: "consistent_combinations co_mappings = [[[0], [1]]]" by code_simp
  have gm: "global_mapping 2 two_atom_maps [[0], [1]] = [0, 1]" by code_simp
  have len: "length co_mappings = 2" "length (two_atom_maps ! 0) = 1" "length (two_atom_maps ! 1) = 1"
    by (simp_all add: co_mappings_def two_atom_maps_def)
  note inst = combiner_emits_consistent_combinations [OF wf, of add_mapping_list "[]"]
  from inst have "enumerate_mappings 0 co_mappings (replicate 2 null_sentinel) two_atom_maps
      add_mapping_list ([], False) = Inr ([[0, 1]], True)"
    by (simp add: cc gm add_mapping_list_def)
  moreover from inst have "global_mapping 2 two_atom_maps [[0], [1]] ! unat (two_atom_maps ! 0 ! 0)
     \<noteq> global_mapping 2 two_atom_maps [[0], [1]] ! unat (two_atom_maps ! 1 ! 0)"
    unfolding cc using len by auto
  ultimately show ?thesis using cc by simp
qed

text \<open>
  The claim as stated fails in its last part: with two consistent combinations, a
  single-result collector is handed both, and holds the second one at the end.
\<close>

theorem single_result_collector_does_not_stop:
  "consistent_combinations cc_mappings = [[[0], [1]], [[1], [0]]] \<and>
   global_mapping 2 two_atom_maps [[0], [1]] = [0, 1] \<and>
   global_mapping 2 two_atom_maps [[1], [0]] = [1, 0] \<and>
   enumerate_mappings 0 cc_mappings (replicate 2 null_sentinel) two_atom_maps add_mapping_single
     ((None, 0), False) = Inr ((Some [1, 0], 2), True)"
  by code_simp

end
